theory Spec2Isabelle
  imports Main "HOL-Library.Word" "HOL-Library.Multiset"
begin

unbundle bit_operations_syntax

section \<open>Assets File System: data model\<close>

text \<open>
  Go strings are byte sequences; they are modelled as \<open>string\<close> (a list of 8-bit
  characters).  The struct \<open>Asset\<close> serves both as the registered descriptor (fields
  \<open>AName\<close>, \<open>Base64\<close>, \<open>NoZLib\<close>) and as the materialized entry of the file system
  (fields \<open>AName\<close>, \<open>isDir\<close>, \<open>content\<close>, \<open>size\<close>, and the embedded
  \<open>io.ReadSeeker\<close>).  The embedded reader is a \<open>strings.Reader\<close>: the string it reads
  and the current position; \<open>None\<close> is the nil interface value.
\<close>

record Reader =
  s :: string
  i :: int

record Asset =
  AName :: string
  Base64 :: string
  NoZLib :: bool
  isDir :: bool
  content :: string
  size :: int
  ReadSeeker :: "Reader option"

text \<open>
  \<open>AFS.assets\<close> is a Go map from names to pointers.  \<open>None\<close> is the nil map of a
  file system made by \<open>new(AFS)\<close> on which no reload has assigned a map yet.  Every
  key holds a pointer to an \<open>Asset\<close> of its own, allocated by reload, so the map doubles
  as the store of these objects: a pointer to an entry is the key it is stored under.
\<close>

record AFS =
  assets :: "(string \<rightharpoonup> Asset) option"

datatype error =
    NoFsData
  | DecodeAsset string
  | ZlibAsset string
  | ZlibReadAsset string
  | ErrNotExist
  | OpenFile error
  | TplFindAsset error
  | TplAssetIsDir
  | TplParse
  | TplExec
  | EOF
  | NilReader
  | SeekWhence
  | SeekNegative

text \<open>
  The errors the package returns, by the place that makes them: \<open>NoFsData\<close> is
  "no fs data registered"; \<open>DecodeAsset\<close>, \<open>ZlibAsset\<close> and \<open>ZlibReadAsset\<close>
  are the three failures of a decoding goroutine, with the name of the asset;
  \<open>ErrNotExist\<close> is \<open>os.ErrNotExist\<close>; \<open>OpenFile\<close> wraps the error of
  \<open>Open\<close>; the four \<open>Tpl\<close> errors are those of \<open>ExecTemplate\<close>; \<open>EOF\<close>,
  \<open>SeekWhence\<close> and \<open>SeekNegative\<close> are the errors of \<open>strings.Reader\<close>, and
  \<open>NilReader\<close> stands for the panic of a call through a nil \<open>ReadSeeker\<close>.
\<close>

datatype zlib_error = ZlibHeader | ZlibStream

text \<open>The function \<open>onceAFS\<close>: a fresh \<open>AFS\<close> whose map is nil.\<close>

definition onceAFS :: AFS where
  "onceAFS = \<lparr>assets = None\<rparr>"

text \<open>Reading a Go map, nil or not.\<close>

definition lookup :: "AFS \<Rightarrow> string \<Rightarrow> Asset option" where
  "lookup afs name = (case assets afs of None \<Rightarrow> None | Some m \<Rightarrow> m name)"

section \<open>Paths\<close>

text \<open>
  \<open>path.Clean\<close> of the Go library, which \<open>filepath.Clean\<close> equals on platforms whose
  separator is the slash.  \<open>clean_loop\<close> is its main loop: \<open>p\<close> is the unread rest of
  the path, \<open>out\<close> the buffer written so far, \<open>dotdot\<close> the index in the buffer
  below which a \<open>..\<close> element must not backtrack.
\<close>

function backtrack :: "nat \<Rightarrow> string \<Rightarrow> string" where
  "backtrack dotdot out =
     (if out = [] then []
      else if length (butlast out) > dotdot \<and> last out \<noteq> CHR ''/''
           then backtrack dotdot (butlast out)
           else butlast out)"
  by pat_completeness auto
termination
  by (relation "measure (\<lambda>(d, out). length out)") auto

definition notSlash :: "char \<Rightarrow> bool" where
  "notSlash c = (c \<noteq> CHR ''/'')"

function clean_loop :: "bool \<Rightarrow> string \<Rightarrow> string \<Rightarrow> nat \<Rightarrow> string" where
  "clean_loop rooted [] out dotdot = out"
| "clean_loop rooted (c # r) out dotdot =
     (if c = CHR ''/'' then clean_loop rooted r out dotdot
      else if c = CHR ''.'' \<and> (r = [] \<or> hd r = CHR ''/'') then clean_loop rooted r out dotdot
      else if c = CHR ''.'' \<and> r \<noteq> [] \<and> hd r = CHR ''.'' \<and> (tl r = [] \<or> hd (tl r) = CHR ''/'') then
        (if length out > dotdot then clean_loop rooted (tl r) (backtrack dotdot out) dotdot
         else if \<not> rooted then
           clean_loop rooted (tl r) ((if length out > 0 then out @ ''/'' else out) @ ''..'')
             (length ((if length out > 0 then out @ ''/'' else out) @ ''..''))
         else clean_loop rooted (tl r) out dotdot)
      else
        clean_loop rooted (dropWhile notSlash r)
          ((if rooted \<and> length out \<noteq> 1 \<or> \<not> rooted \<and> length out \<noteq> 0 then out @ ''/'' else out)
             @ c # takeWhile notSlash r)
          dotdot)"
  by pat_completeness auto
termination
  by (relation "measure (\<lambda>(rooted, p, out, dotdot). length p)")
     (auto simp: less_Suc_eq_le length_dropWhile_le intro: le_trans [OF length_dropWhile_le])

definition Clean :: "string \<Rightarrow> string" where
  "Clean path =
     (if path = [] then ''.''
      else let rooted = (hd path = CHR ''/'');
               out = (if rooted then clean_loop True (tl path) ''/'' 1
                      else clean_loop False path [] 0)
           in if out = [] then ''.'' else out)"

text \<open>\<open>filepath.Join\<close> on two elements, as \<open>fileNameClean\<close> calls it.\<close>

definition Join :: "string \<Rightarrow> string \<Rightarrow> string" where
  "Join a b =
     (if a \<noteq> [] then Clean (a @ ''/'' @ b)
      else if b \<noteq> [] then Clean b
      else [])"

text \<open>\<open>path.Split\<close> keeps everything up to and including the last slash in \<open>dir\<close>.\<close>

definition Split_dir :: "string \<Rightarrow> string" where
  "Split_dir path = rev (dropWhile notSlash (rev path))"

definition Dir :: "string \<Rightarrow> string" where
  "Dir path = Clean (Split_dir path)"

definition fileNameClean :: "string \<Rightarrow> string" where
  "fileNameClean name = Clean (Join ''/'' name)"

section \<open>Codec\<close>

text \<open>
  \<open>base64.StdEncoding\<close> of the Go library: the standard alphabet with \<open>=\<close> padding,
  not strict.  \<open>decodeMap\<close> is the table the encoding builds from the alphabet (the
  entry \<open>0xff\<close> of a character outside the alphabet is \<open>None\<close> here).
\<close>

definition encodeStd :: string where
  "encodeStd = ''ABCDEFGHIJKLMNOPQRSTUVWXYZabcdefghijklmnopqrstuvwxyz0123456789+/''"

fun index_from :: "nat \<Rightarrow> char \<Rightarrow> string \<Rightarrow> nat option" where
  "index_from k c [] = None"
| "index_from k c (x # xs) = (if x = c then Some k else index_from (k + 1) c xs)"

definition decodeMap :: "char \<Rightarrow> nat option" where
  "decodeMap c = index_from 0 c encodeStd"

definition enc6 :: "nat \<Rightarrow> char" where
  "enc6 v = encodeStd ! (v AND 63)"

fun EncodeToString :: "string \<Rightarrow> string" where
  "EncodeToString (a # b # c # src) =
     (let val = push_bit 16 (of_char a) OR push_bit 8 (of_char b) OR (of_char c :: nat)
      in enc6 (drop_bit 18 val) # enc6 (drop_bit 12 val) # enc6 (drop_bit 6 val) # enc6 val
           # EncodeToString src)"
| "EncodeToString [a, b] =
     (let val = push_bit 16 (of_char a) OR push_bit 8 (of_char b :: nat)
      in [enc6 (drop_bit 18 val), enc6 (drop_bit 12 val), enc6 (drop_bit 6 val), CHR ''=''])"
| "EncodeToString [a] =
     (let val = push_bit 16 (of_char a :: nat)
      in [enc6 (drop_bit 18 val), enc6 (drop_bit 12 val), CHR ''='', CHR ''=''])"
| "EncodeToString [] = []"

text \<open>
  The bytes of one decoded quantum: \<open>d\<close> holds the 6-bit values read so far (the
  filled part of \<open>dbuf\<close>, the rest of which is zero), and \<open>length d - 1\<close> bytes come out.
\<close>

fun quantum_val :: "nat list \<Rightarrow> nat" where
  "quantum_val [d0, d1, d2, d3] = push_bit 18 d0 OR push_bit 12 d1 OR push_bit 6 d2 OR d3"
| "quantum_val [d0, d1, d2] = push_bit 18 d0 OR push_bit 12 d1 OR push_bit 6 d2"
| "quantum_val [d0, d1] = push_bit 18 d0 OR push_bit 12 d1"
| "quantum_val _ = 0"

definition quantum_bytes :: "nat list \<Rightarrow> string" where
  "quantum_bytes d =
     (let val = quantum_val d
      in take (length d - 1) [char_of (drop_bit 16 val), char_of (drop_bit 8 val), char_of val])"

definition isNL :: "char \<Rightarrow> bool" where
  "isNL c = (c = CHR 0x0A \<or> c = CHR 0x0D)"

text \<open>
  \<open>DecodeString\<close>: the loop of \<open>Decode\<close> over \<open>decodeQuantum\<close>, on the unread rest
  of the input.  \<open>None\<close> is a \<open>CorruptInputError\<close>.  Line breaks are skipped, a
  quantum cut short by the end of the input is corrupt, and after padding only line
  breaks may follow.
\<close>

fun decodeQuanta :: "nat list \<Rightarrow> string \<Rightarrow> string option" where
  "decodeQuanta d [] = (if d = [] then Some [] else None)"
| "decodeQuanta d (c # src) =
     (case decodeMap c of
        Some v \<Rightarrow>
          if length d = 3
          then (case decodeQuanta [] src of
                  None \<Rightarrow> None
                | Some bs \<Rightarrow> Some (quantum_bytes (d @ [v]) @ bs))
          else decodeQuanta (d @ [v]) src
      | None \<Rightarrow>
          if isNL c then decodeQuanta d src
          else if c \<noteq> CHR ''='' then None
          else if length d < 2 then None
          else if length d = 2 then
            (case dropWhile isNL src of
               [] \<Rightarrow> None
             | c' # src' \<Rightarrow>
                 if c' \<noteq> CHR ''='' then None
                 else if dropWhile isNL src' \<noteq> [] then None
                 else Some (quantum_bytes d))
          else if dropWhile isNL src \<noteq> [] then None
          else Some (quantum_bytes d))"

definition DecodeString :: "string \<Rightarrow> string option" where
  "DecodeString src = decodeQuanta [] src"

section \<open>Registry and reload\<close>

text \<open>The global \<open>assets\<close> is the list of registered descriptors, passed explicitly.\<close>

definition Register :: "Asset list \<Rightarrow> Asset list \<Rightarrow> Asset list" where
  "Register registered a = registered @ a"

text \<open>
  A descriptor as generated code and callers write it: the composite literal
  \<open>&afs.Asset{AName: n, Base64: b, NoZLib: z}\<close>, every other field zero.
\<close>

definition descriptor :: "string \<Rightarrow> string \<Rightarrow> bool \<Rightarrow> Asset" where
  "descriptor n b z =
     \<lparr>AName = n, Base64 = b, NoZLib = z, isDir = False, content = [], size = 0,
      ReadSeeker = None\<rparr>"

definition newFile :: "string \<Rightarrow> string \<Rightarrow> Asset" where
  "newFile name c =
     \<lparr>AName = name, Base64 = [], NoZLib = False, isDir = False, content = c,
      size = int (length c), ReadSeeker = None\<rparr>"

definition newDir :: "string \<Rightarrow> Asset" where
  "newDir dir =
     \<lparr>AName = dir, Base64 = [], NoZLib = False, isDir = True, content = dir,
      size = int (length dir), ReadSeeker = None\<rparr>"

text \<open>
  The body of one decoding goroutine.  The zlib reader is library code and a
  parameter here: \<open>zread\<close> returns the inflated bytes, \<open>ZlibHeader\<close> when
  \<open>zlib.NewReader\<close> fails, or \<open>ZlibStream\<close> when copying from the reader fails.
\<close>

definition decodeAsset :: "(string \<Rightarrow> zlib_error + string) \<Rightarrow> Asset \<Rightarrow> error + Asset" where
  "decodeAsset zread asset =
     (let name = fileNameClean (AName asset)
      in case DecodeString (Base64 asset) of
           None \<Rightarrow> Inl (DecodeAsset name)
         | Some b64 \<Rightarrow>
             if \<not> NoZLib asset then
               (case zread b64 of
                  Inl ZlibHeader \<Rightarrow> Inl (ZlibAsset name)
                | Inl ZlibStream \<Rightarrow> Inl (ZlibReadAsset name)
                | Inr z \<Rightarrow> Inr (newFile name z))
             else Inr (newFile name b64))"

text \<open>
  The collector loop over the channel: results come in the order the goroutines
  deliver them, and the first error ends the loop with the map as filled so far.
\<close>

fun collect :: "(error + Asset) list \<Rightarrow> (string \<rightharpoonup> Asset) \<Rightarrow> error option \<times> (string \<rightharpoonup> Asset)" where
  "collect [] m = (None, m)"
| "collect (Inl e # rs) m = (Some e, m)"
| "collect (Inr a # rs) m = collect rs (m(AName a \<mapsto> a))"

text \<open>\<open>Belong\<close>, on the map that reload is building.\<close>

definition Belong_map :: "(string \<rightharpoonup> Asset) \<Rightarrow> string \<Rightarrow> bool" where
  "Belong_map m name = (m (fileNameClean name) \<noteq> None)"

text \<open>
  The loop that fills in directories ranges over the map while its body inserts
  into it.  \<open>fill_dir\<close> is the body at the entry with key \<open>k\<close>; \<open>fill_dirs\<close> runs it
  over the keys in the order the range statement produces them.
\<close>

definition fill_dir :: "string \<Rightarrow> (string \<rightharpoonup> Asset) \<Rightarrow> (string \<rightharpoonup> Asset)" where
  "fill_dir k m =
     (case m k of
        None \<Rightarrow> m
      | Some asset \<Rightarrow>
          let dir = Dir (AName asset)
          in if Belong_map m dir then m else m(dir \<mapsto> newDir dir))"

fun fill_dirs :: "string list \<Rightarrow> (string \<rightharpoonup> Asset) \<Rightarrow> (string \<rightharpoonup> Asset)" where
  "fill_dirs [] m = m"
| "fill_dirs (k # ks) m = fill_dirs ks (fill_dir k m)"

text \<open>
  What Go allows a range over a map to produce when the body inserts: every key is
  produced at most once and is in the map when it is produced; every key that was
  in the map when the loop began is produced; a key inserted by the body may be
  produced later or skipped.
\<close>

fun produced :: "(string \<rightharpoonup> Asset) \<Rightarrow> string list \<Rightarrow> bool" where
  "produced m [] = True"
| "produced m (k # ks) = (m k \<noteq> None \<and> k \<notin> set ks \<and> produced (fill_dir k m) ks)"

definition range_order :: "(string \<rightharpoonup> Asset) \<Rightarrow> string list \<Rightarrow> bool" where
  "range_order m ks = (dom m \<subseteq> set ks \<and> produced m ks)"

text \<open>
  \<open>reload\<close>.  \<open>registered\<close> is the global list of descriptors, \<open>arrived\<close> the same
  descriptors in the order in which their goroutines deliver their results to the
  channel, \<open>ks\<close> the order in which the directory loop produces the keys.  The result
  is the returned error (\<open>None\<close> is nil) and the file system afterwards.
\<close>

definition reload ::
  "(string \<Rightarrow> zlib_error + string) \<Rightarrow> Asset list \<Rightarrow> Asset list \<Rightarrow> string list \<Rightarrow> AFS
     \<Rightarrow> error option \<times> AFS" where
  "reload zread registered arrived ks afs =
     (if length registered = 0 then (Some NoFsData, afs)
      else case collect (map (decodeAsset zread) arrived) Map.empty of
             (Some e, m) \<Rightarrow> (Some e, afs\<lparr>assets := Some m\<rparr>)
           | (None, m) \<Rightarrow> (None, afs\<lparr>assets := Some (fill_dirs ks m)\<rparr>))"

text \<open>
  A run of \<open>reload\<close> is described by a schedule: \<open>arrived\<close> is a permutation of the
  registry, and \<open>ks\<close> is an order the range over the collected map can produce.
\<close>

definition schedule :: "(string \<Rightarrow> zlib_error + string) \<Rightarrow> Asset list \<Rightarrow> Asset list \<Rightarrow> string list \<Rightarrow> bool" where
  "schedule zread registered arrived ks =
     (mset arrived = mset registered \<and>
      (case collect (map (decodeAsset zread) arrived) Map.empty of
         (Some e, m) \<Rightarrow> True
       | (None, m) \<Rightarrow> range_order m ks))"

definition Add ::
  "(string \<Rightarrow> zlib_error + string) \<Rightarrow> Asset list \<Rightarrow> Asset list \<Rightarrow> Asset list \<Rightarrow> string list \<Rightarrow> AFS
     \<Rightarrow> error option \<times> Asset list \<times> AFS" where
  "Add zread registered a arrived ks afs =
     (let registered' = registered @ a;
          (err, afs') = reload zread registered' arrived ks afs
      in (err, registered', afs'))"

section \<open>The file system\<close>

definition Belong :: "AFS \<Rightarrow> string \<Rightarrow> bool" where
  "Belong afs name = (lookup afs (fileNameClean name) \<noteq> None)"

text \<open>\<open>asset\<close> returns the pointer stored in the map: the entry and the key it lives under.\<close>

definition asset :: "AFS \<Rightarrow> string \<Rightarrow> error + (string \<times> Asset)" where
  "asset afs name =
     (case lookup afs (fileNameClean name) of
        None \<Rightarrow> Inl ErrNotExist
      | Some a \<Rightarrow> Inr (fileNameClean name, a))"

text \<open>Writing through a pointer to an entry of the map.\<close>

definition store :: "AFS \<Rightarrow> string \<Rightarrow> Asset \<Rightarrow> AFS" where
  "store afs k a = (case assets afs of None \<Rightarrow> afs | Some m \<Rightarrow> afs\<lparr>assets := Some (m(k \<mapsto> a))\<rparr>)"

text \<open>
  \<open>Open\<close> assigns a new reader to the entry in the map and returns the pointer to
  that entry: the handle is the key of the entry.
\<close>

definition Open :: "AFS \<Rightarrow> string \<Rightarrow> (error + string) \<times> AFS" where
  "Open afs name =
     (case asset afs name of
        Inl e \<Rightarrow> (Inl (OpenFile e), afs)
      | Inr (p, a) \<Rightarrow> (Inr p, store afs p (a\<lparr>ReadSeeker := Some \<lparr>s = content a, i = 0\<rparr>\<rparr>)))"

text \<open>
  \<open>strings.Reader\<close>: \<open>Read\<close> into a buffer of \<open>n\<close> bytes and \<open>Seek\<close> (whence
  0, 1, 2 for start, current, end).  The position and the offset are \<open>int64\<close> in
  the source: \<open>int64\<close> is the value of an integer in that type, and the sums that
  \<open>Seek\<close> forms wrap around.  \<open>Read\<close> adds to the position only below the length
  of the string, where nothing wraps.
\<close>

definition int64 :: "int \<Rightarrow> int" where
  "int64 x = (x + 2 ^ 63) mod 2 ^ 64 - 2 ^ 63"

definition Reader_Read :: "Reader \<Rightarrow> nat \<Rightarrow> (error + string) \<times> Reader" where
  "Reader_Read r n =
     (if i r \<ge> int (length (s r)) then (Inl EOF, r)
      else let b = take n (drop (nat (i r)) (s r))
           in (Inr b, r\<lparr>i := i r + int (length b)\<rparr>))"

definition Reader_Seek :: "Reader \<Rightarrow> int \<Rightarrow> nat \<Rightarrow> (error + int) \<times> Reader" where
  "Reader_Seek r offset whence =
     (if whence > 2 then (Inl SeekWhence, r)
      else let abs = (if whence = 0 then int64 offset
                      else if whence = 1 then int64 (i r + int64 offset)
                      else int64 (int (length (s r)) + int64 offset))
           in if abs < 0 then (Inl SeekNegative, r) else (Inr abs, r\<lparr>i := abs\<rparr>))"

text \<open>
  \<open>Read\<close> and \<open>Seek\<close> on an \<open>Asset\<close> are those of its embedded reader, reached
  through the pointer \<open>p\<close> that \<open>Open\<close> returned.  A pointer is followed within the
  snapshot it came from.
\<close>

definition Read :: "AFS \<Rightarrow> string \<Rightarrow> nat \<Rightarrow> (error + string) \<times> AFS" where
  "Read afs p n =
     (case lookup afs p of
        None \<Rightarrow> (Inl ErrNotExist, afs)
      | Some a \<Rightarrow>
          (case ReadSeeker a of
             None \<Rightarrow> (Inl NilReader, afs)
           | Some r \<Rightarrow>
               let (res, r') = Reader_Read r n
               in (res, store afs p (a\<lparr>ReadSeeker := Some r'\<rparr>))))"

definition Seek :: "AFS \<Rightarrow> string \<Rightarrow> int \<Rightarrow> nat \<Rightarrow> (error + int) \<times> AFS" where
  "Seek afs p offset whence =
     (case lookup afs p of
        None \<Rightarrow> (Inl ErrNotExist, afs)
      | Some a \<Rightarrow>
          (case ReadSeeker a of
             None \<Rightarrow> (Inl NilReader, afs)
           | Some r \<Rightarrow>
               let (res, r') = Reader_Seek r offset whence
               in (res, store afs p (a\<lparr>ReadSeeker := Some r'\<rparr>))))"

text \<open>The read position seen through a handle: what \<open>Seek(0, io.SeekCurrent)\<close> returns.\<close>

definition position :: "AFS \<Rightarrow> string \<Rightarrow> error + int" where
  "position afs p = fst (Seek afs p 0 1)"

definition HasPrefix :: "string \<Rightarrow> string \<Rightarrow> bool" where
  "HasPrefix str prefix = (length str \<ge> length prefix \<and> take (length prefix) str = prefix)"

text \<open>
  \<open>Readdir\<close> ranges over the map of the global \<open>assetFileSystem\<close>; \<open>ks\<close> is the
  order in which the range produces the keys.
\<close>

definition Readdir :: "AFS \<Rightarrow> string list \<Rightarrow> Asset \<Rightarrow> Asset list" where
  "Readdir assetFileSystem ks a =
     (if \<not> isDir a then []
      else List.map_filter
             (\<lambda>name. if HasPrefix name (AName a) \<and> length name > length (AName a)
                      then lookup assetFileSystem name else None) ks)"

definition range_keys :: "AFS \<Rightarrow> string list \<Rightarrow> bool" where
  "range_keys afs ks = (distinct ks \<and> set ks = {k. lookup afs k \<noteq> None})"

text \<open>
  \<open>ExecTemplate\<close>.  The template engine is library code and a parameter:
  \<open>parse name text\<close> is \<open>template.New(name).Parse(text)\<close> and \<open>execute tpl data\<close>
  the text that \<open>tpl.Execute\<close> writes, \<open>None\<close> when they return an error.
\<close>

fun ExecTemplate ::
  "(string \<Rightarrow> string \<Rightarrow> 't option) \<Rightarrow> ('t \<Rightarrow> 'd \<Rightarrow> string option) \<Rightarrow> string list \<Rightarrow> 'd \<Rightarrow> AFS
     \<Rightarrow> error option \<times> AFS" where
  "ExecTemplate parse execute [] data afs = (None, afs)"
| "ExecTemplate parse execute (name # names) data afs =
     (case asset afs name of
        Inl e \<Rightarrow> (Some (TplFindAsset e), afs)
      | Inr (p, a) \<Rightarrow>
          if isDir a then (Some TplAssetIsDir, afs)
          else (case parse name (content a) of
                  None \<Rightarrow> (Some TplParse, afs)
                | Some tpl \<Rightarrow>
                    (case execute tpl data of
                       None \<Rightarrow> (Some TplExec, afs)
                     | Some buf \<Rightarrow>
                         ExecTemplate parse execute names data
                           (store afs p (a\<lparr>content := buf, size := int (length buf)\<rparr>)))))"

section \<open>The generator\<close>

definition TrimPrefix :: "string \<Rightarrow> string \<Rightarrow> string" where
  "TrimPrefix str prefix = (if HasPrefix str prefix then drop (length prefix) str else str)"

text \<open>
  \<open>makeAsset\<close> of the generator, on the bytes \<open>data\<close> read from the file \<open>path\<close>.
  The zlib writer is library code and a parameter: \<open>zwrite data\<close> is the stream
  the writer leaves in the buffer.
\<close>

definition makeAsset :: "(string \<Rightarrow> string) \<Rightarrow> bool \<Rightarrow> string \<Rightarrow> string \<Rightarrow> string \<Rightarrow> Asset" where
  "makeAsset zwrite compress source path data =
     descriptor (Join ''/'' (TrimPrefix path source))
       (if compress then EncodeToString (zwrite data) else EncodeToString data)
       (\<not> compress)"

section \<open>Notions of the specification\<close>

text \<open>
  The ancestor directories of a normalized name, nearest first: its parent, the
  parent of that, and so on up to the root.
\<close>

fun ancestors_upto :: "nat \<Rightarrow> string \<Rightarrow> string list" where
  "ancestors_upto 0 n = []"
| "ancestors_upto (Suc k) n = (if Dir n = n then [] else Dir n # ancestors_upto k (Dir n))"

definition ancestors :: "string \<Rightarrow> string list" where
  "ancestors n = ancestors_upto (length n) n"

text \<open>Directory inference totality, as the specification words it.\<close>

definition dir_inference_total :: "AFS \<Rightarrow> bool" where
  "dir_inference_total afs =
     (\<forall>n. lookup afs n \<noteq> None \<longrightarrow>
        (\<forall>d \<in> set (ancestors n). \<exists>a. lookup afs d = Some a \<and> isDir a))"

text \<open>
  The segment-aware strict prefix of the specification: \<open>n\<close> lies in the subtree
  of the directory \<open>d\<close>.
\<close>

definition in_subtree :: "string \<Rightarrow> string \<Rightarrow> bool" where
  "in_subtree d n = (d \<in> set (ancestors n))"

section \<open>Normal forms of paths\<close>

text \<open>
  A path element is normal when it is not empty, holds no slash and is neither
  \<open>.\<close> nor \<open>..\<close>; a path is canonical when it is the root or a non-empty
  sequence of normal elements, each behind a slash.
\<close>

definition normal :: "string \<Rightarrow> bool" where
  "normal c = (c \<noteq> [] \<and> CHR ''/'' \<notin> set c \<and> c \<noteq> ''.'' \<and> c \<noteq> ''..'')"

definition slashed :: "string list \<Rightarrow> string" where
  "slashed cs = concat (map ((#) CHR ''/'') cs)"

definition canon :: "string \<Rightarrow> bool" where
  "canon p = (p = ''/'' \<or> (\<exists>cs. cs \<noteq> [] \<and> list_all normal cs \<and> p = slashed cs))"

text \<open>
  The shape of the maps that reload builds: every entry is stored under its own
  name, the name is canonical, and a directory entry carries its name as content.
\<close>

definition wf_map :: "(string \<rightharpoonup> Asset) \<Rightarrow> bool" where
  "wf_map m = (\<forall>k a. m k = Some a \<longrightarrow>
      AName a = k \<and> canon k \<and> (isDir a \<longrightarrow> content a = k \<and> size a = int (length k)))"

section \<open>Path normalization\<close>

declare backtrack.simps [simp del]
declare clean_loop.simps [simp del]

lemma slashed_simps [simp]:
  "slashed [] = []" "slashed (c # cs) = CHR ''/'' # c @ slashed cs"
  "slashed (cs @ ds) = slashed cs @ slashed ds"
  by (simp_all add: slashed_def)

lemma loop_nil: "clean_loop rooted [] out dd = out"
  by (simp add: clean_loop.simps)

lemma loop_slash: "clean_loop rooted (CHR ''/'' # r) out dd = clean_loop rooted r out dd"
  by (subst clean_loop.simps) simp

lemma takeWhile_elem:
  "CHR ''/'' \<notin> set c \<Longrightarrow> rest = [] \<or> hd rest = CHR ''/'' \<Longrightarrow> takeWhile notSlash (c @ rest) = c"
  by (cases rest; induction c) (auto simp: notSlash_def)

lemma dropWhile_elem:
  "CHR ''/'' \<notin> set c \<Longrightarrow> rest = [] \<or> hd rest = CHR ''/'' \<Longrightarrow> dropWhile notSlash (c @ rest) = rest"
  by (cases rest; induction c) (auto simp: notSlash_def)

lemma loop_elem:
  assumes "normal c" and "rest = [] \<or> hd rest = CHR ''/''"
  shows "clean_loop True (c @ rest) out 1
         = clean_loop True rest ((if length out \<noteq> 1 then out @ ''/'' else out) @ c) 1"
proof -
  from assms(1) obtain x xs where c: "c = x # xs" and x: "x \<noteq> CHR ''/''"
    and ns: "CHR ''/'' \<notin> set xs" and nd: "c \<noteq> ''.''" and ndd: "c \<noteq> ''..''"
    by (cases c) (auto simp: normal_def)
  have tw: "takeWhile notSlash (xs @ rest) = xs" and dw: "dropWhile notSlash (xs @ rest) = rest"
    using ns assms(2) by (simp_all add: takeWhile_elem dropWhile_elem)
  have n2: "\<not> (x = CHR ''.'' \<and> (xs @ rest = [] \<or> hd (xs @ rest) = CHR ''/''))"
    using nd ns c assms(2) by (cases xs) auto
  have n3: "\<not> (x = CHR ''.'' \<and> xs @ rest \<noteq> [] \<and> hd (xs @ rest) = CHR ''.'' \<and>
             (tl (xs @ rest) = [] \<or> hd (tl (xs @ rest)) = CHR ''/''))"
  proof (cases xs)
    case Nil
    then show ?thesis using assms(2) by auto
  next
    case (Cons y ys)
    then show ?thesis using ndd ns c assms(2) by (cases ys) auto
  qed
  have "clean_loop True (x # (xs @ rest)) out 1 =
        clean_loop True (dropWhile notSlash (xs @ rest))
          ((if True \<and> length out \<noteq> 1 \<or> \<not> True \<and> length out \<noteq> 0 then out @ ''/'' else out)
             @ x # takeWhile notSlash (xs @ rest)) 1"
    by (subst clean_loop.simps) (simp only: x n2 n3 if_False)
  then show ?thesis
    unfolding c tw dw by simp
qed

lemma loop_slashed:
  "list_all normal cs \<Longrightarrow> length out \<noteq> 1 \<Longrightarrow> t = [] \<or> hd t = CHR ''/'' \<Longrightarrow>
   clean_loop True (slashed cs @ t) out 1 = clean_loop True t (out @ slashed cs) 1"
proof (induction cs arbitrary: out)
  case Nil
  then show ?case by simp
next
  case (Cons c cs)
  have r: "slashed cs @ t = [] \<or> hd (slashed cs @ t) = CHR ''/''"
    using Cons.prems(3) by (cases cs) auto
  have nc: "normal c" and ncs: "list_all normal cs" using Cons.prems(1) by simp_all
  have "clean_loop True (slashed (c # cs) @ t) out 1 = clean_loop True (c @ (slashed cs @ t)) out 1"
    by (simp add: loop_slash)
  also have "\<dots> = clean_loop True (slashed cs @ t) (out @ ''/'' @ c) 1"
    using loop_elem [OF nc r, of out] Cons.prems(2) by simp
  also have "\<dots> = clean_loop True t ((out @ ''/'' @ c) @ slashed cs) 1"
    using nc by (intro Cons.IH [OF ncs _ Cons.prems(3)]) (simp add: normal_def)
  finally show ?case by simp
qed

lemma loop_slashed_root:
  assumes "list_all normal cs" and "t = [] \<or> hd t = CHR ''/''"
  shows "clean_loop True (tl (slashed cs) @ t) ''/'' 1 = clean_loop True t (if cs = [] then ''/'' else slashed cs) 1"
proof (cases cs)
  case Nil
  then show ?thesis by simp
next
  case (Cons c ds)
  have r: "slashed ds @ t = [] \<or> hd (slashed ds @ t) = CHR ''/''"
    using assms(2) by (cases ds) auto
  have nc: "normal c" and nds: "list_all normal ds" using assms(1) Cons by simp_all
  have "clean_loop True (tl (slashed cs) @ t) ''/'' 1 = clean_loop True (c @ (slashed ds @ t)) ''/'' 1"
    using Cons by simp
  also have "\<dots> = clean_loop True (slashed ds @ t) (''/'' @ c) 1"
    using loop_elem [OF nc r, of "''/''"] by simp
  also have "\<dots> = clean_loop True t ((''/'' @ c) @ slashed ds) 1"
    using nc by (intro loop_slashed [OF nds _ assms(2)]) (simp add: normal_def)
  finally show ?thesis using Cons by simp
qed

lemma Clean_rooted: "Clean (CHR ''/'' # p) = 
   (let out = clean_loop True p ''/'' 1 in if out = [] then ''.'' else out)"
  by (simp add: Clean_def)

lemma canon_Clean: "canon p \<Longrightarrow> Clean p = p"
proof -
  assume "canon p"
  then consider "p = ''/''" | cs where "cs \<noteq> []" "list_all normal cs" "p = slashed cs"
    by (auto simp: canon_def)
  then show ?thesis
  proof cases
    case 1
    then show ?thesis by (simp add: Clean_rooted loop_nil)
  next
    case 2
    have "clean_loop True (tl (slashed cs) @ []) ''/'' 1 = clean_loop True [] (slashed cs) 1"
      using loop_slashed_root [OF 2(2), of "[]"] 2(1) by simp
    moreover have "slashed cs = CHR ''/'' # tl (slashed cs)" using 2(1) by (cases cs) auto
    ultimately have "clean_loop True (tl p) ''/'' 1 = p" and "p = CHR ''/'' # tl p"
      using 2(3) by (simp_all add: loop_nil)
    then show ?thesis using Clean_rooted [of "tl p"] by (cases p) (simp_all add: Let_def)
  qed
qed


lemma backtrack_elem:
  "CHR ''/'' \<notin> set c \<Longrightarrow> dd \<le> length pre \<Longrightarrow> backtrack dd (pre @ CHR ''/'' # c) = pre"
proof (induction c rule: rev_induct)
  case Nil
  show ?case by (subst backtrack.simps) simp
next
  case (snoc x c)
  have x: "x \<noteq> CHR ''/''" using snoc.prems by auto
  have "backtrack dd ((pre @ CHR ''/'' # c) @ [x]) = backtrack dd (pre @ CHR ''/'' # c)"
    using snoc.prems(2) x by (subst backtrack.simps) (simp del: append_assoc)
  then show ?case using snoc by simp
qed

lemma backtrack_first:
  "c \<noteq> [] \<Longrightarrow> CHR ''/'' \<notin> set c \<Longrightarrow> backtrack (length pre) (pre @ c) = pre"
proof (induction c rule: rev_induct)
  case Nil
  then show ?case by simp
next
  case (snoc x c)
  have x: "x \<noteq> CHR ''/''" using snoc.prems by auto
  show ?case
  proof (cases "c = []")
    case True
    then show ?thesis by (subst backtrack.simps) simp
  next
    case False
    have "backtrack (length pre) ((pre @ c) @ [x]) = backtrack (length pre) (pre @ c)"
      using x False by (subst backtrack.simps) (simp del: append_assoc)
    then show ?thesis using snoc False by simp
  qed
qed

lemma canon_length: "canon p \<Longrightarrow> length p = 1 \<longleftrightarrow> p = ''/''"
  by (auto simp: canon_def normal_def neq_Nil_conv)

lemma canon_backtrack:
  assumes "canon out" and "length out > 1"
  shows "canon (backtrack 1 out)"
proof -
  from assms obtain cs where cs: "cs \<noteq> []" "list_all normal cs" "out = slashed cs"
    by (auto simp: canon_def)
  then obtain ds c where dc: "cs = ds @ [c]" by (cases cs rule: rev_cases) auto
  have nc: "c \<noteq> []" "CHR ''/'' \<notin> set c" and nds: "list_all normal ds"
    using cs(2) dc by (simp_all add: normal_def)
  show ?thesis
  proof (cases "ds = []")
    case True
    have "backtrack (length ''/'') (''/'' @ c) = ''/''" using nc by (rule backtrack_first)
    then show ?thesis using True cs(3) dc by (simp add: canon_def)
  next
    case False
    then have "1 \<le> length (slashed ds)" by (cases ds) simp_all
    then have "backtrack 1 out = slashed ds"
      using cs(3) dc nc backtrack_elem [of c 1 "slashed ds"] by simp
    then show ?thesis using False nds by (auto simp: canon_def)
  qed
qed

lemma canon_extend:
  assumes "canon out" and "normal e"
  shows "canon ((if length out \<noteq> 1 then out @ ''/'' else out) @ e)"
proof (cases "out = ''/''")
  case True
  have "''/'' @ e = slashed [e]" and "list_all normal [e]" using assms(2) by simp_all
  then have "canon (''/'' @ e)" unfolding canon_def by blast
  then show ?thesis using True by simp
next
  case False
  with assms obtain cs where cs: "cs \<noteq> []" "list_all normal cs" "out = slashed cs"
    by (auto simp: canon_def)
  have "length out \<noteq> 1" using False assms(1) canon_length by blast
  moreover have "out @ ''/'' @ e = slashed (cs @ [e])" using cs(3) by simp
  moreover have "list_all normal (cs @ [e])" "cs @ [e] \<noteq> []" using cs(2) assms(2) by simp_all
  ultimately have "canon (out @ ''/'' @ e)" and "length out \<noteq> 1" unfolding canon_def by blast+
  then show ?thesis by simp
qed

lemma takeWhile_nil_iff: "takeWhile notSlash r = [] \<longleftrightarrow> (r = [] \<or> hd r = CHR ''/'')"
  by (cases r) (auto simp: notSlash_def)

lemma canon_loop: "canon out \<Longrightarrow> canon (clean_loop True p out 1)"
proof (induction "length p" arbitrary: p out rule: less_induct)
  case less
  show ?case
  proof (cases p)
    case Nil
    then show ?thesis using less.prems by (simp add: loop_nil)
  next
    case (Cons c r)
    let ?dot = "c = CHR ''.'' \<and> (r = [] \<or> hd r = CHR ''/'')"
    let ?dotdot = "c = CHR ''.'' \<and> r \<noteq> [] \<and> hd r = CHR ''.'' \<and> (tl r = [] \<or> hd (tl r) = CHR ''/'')"
    consider (slash) "c = CHR ''/''" | (dot) "c \<noteq> CHR ''/''" ?dot
      | (dotdot) "c \<noteq> CHR ''/''" "\<not> ?dot" ?dotdot
      | (elem) "c \<noteq> CHR ''/''" "\<not> ?dot" "\<not> ?dotdot"
      by blast
    then show ?thesis
    proof cases
      case slash
      then show ?thesis using less Cons by (simp add: loop_slash)
    next
      case dot
      have "clean_loop True (c # r) out 1 = clean_loop True r out 1"
        by (subst clean_loop.simps) (use dot in simp)
      then show ?thesis using less Cons by simp
    next
      case dotdot
      have eq: "clean_loop True (c # r) out 1 =
            (if length out > 1 then clean_loop True (tl r) (backtrack 1 out) 1
             else clean_loop True (tl r) out 1)"
        by (subst clean_loop.simps) (use dotdot in auto)
      have lt: "length (tl r) < length p" using Cons by simp
      show ?thesis
        unfolding Cons eq
        using less.hyps [OF lt] less.prems canon_backtrack by simp
    next
      case elem
      let ?e = "c # takeWhile notSlash r"
      have eq: "clean_loop True (c # r) out 1 =
            clean_loop True (dropWhile notSlash r)
              ((if True \<and> length out \<noteq> 1 \<or> \<not> True \<and> length out \<noteq> 0 then out @ ''/'' else out) @ ?e) 1"
        by (subst clean_loop.simps) (simp only: elem if_False)
      have "CHR ''/'' \<notin> set (takeWhile notSlash r)"
        by (metis notSlash_def set_takeWhileD)
      moreover have "?e \<noteq> ''.''" using elem(2) by (simp add: takeWhile_nil_iff)
      moreover have "?e \<noteq> ''..''"
      proof
        assume a: "?e = ''..''"
        then have c: "c = CHR ''.''" and tw: "takeWhile notSlash r = ''.''" by simp_all
        from tw obtain r' where r: "r = CHR ''.'' # r'" and "takeWhile notSlash r' = []"
          by (cases r) (auto split: if_splits)
        then have "r' = [] \<or> hd r' = CHR ''/''" by (simp add: takeWhile_nil_iff)
        with c r elem(3) show False by simp
      qed
      ultimately have ne: "normal ?e" using elem(1) by (simp add: normal_def)
      have lt: "length (dropWhile notSlash r) < length p"
        using Cons length_dropWhile_le [of notSlash r] by simp
      show ?thesis
        unfolding Cons eq
        using less.hyps [OF lt] canon_extend [OF less.prems ne] by simp
    qed
  qed
qed

lemma canon_root: "canon ''/''"
  by (simp add: canon_def)

lemma canon_nonempty: "canon p \<Longrightarrow> p \<noteq> [] \<and> hd p = CHR ''/''"
  by (auto simp: canon_def neq_Nil_conv)

lemma canon_Clean_rooted: "canon (Clean (CHR ''/'' # p))"
  using canon_loop [OF canon_root, of p] canon_nonempty [of "clean_loop True p ''/'' 1"]
  by (simp add: Clean_rooted Let_def)

lemma Join_root: "Join ''/'' name = Clean (CHR ''/'' # CHR ''/'' # name)"
  by (simp add: Join_def)

lemma canon_fileNameClean: "canon (fileNameClean name)"
  by (simp add: fileNameClean_def Join_root canon_Clean_rooted canon_Clean)

lemma fileNameClean_canon: "canon p \<Longrightarrow> fileNameClean p = p"
proof -
  assume c: "canon p"
  then obtain q where q: "p = CHR ''/'' # q" using canon_nonempty [of p] by (cases p) auto
  have "Clean (CHR ''/'' # CHR ''/'' # p) = Clean p"
    unfolding q by (simp add: Clean_rooted loop_slash)
  then show ?thesis using c by (simp add: fileNameClean_def Join_root canon_Clean)
qed

text \<open>
  C8.  Path normalization is idempotent: normalizing a normalized path returns
  it unchanged.
\<close>

theorem fileNameClean_idempotent:
  "fileNameClean (fileNameClean p) = fileNameClean p"
  by (simp add: fileNameClean_canon canon_fileNameClean)

lemma canon_Dir: "canon p \<Longrightarrow> canon (Dir p)"
proof -
  assume "canon p"
  then obtain q where q: "p = CHR ''/'' # q" using canon_nonempty [of p] by (cases p) auto
  have "\<exists>d. Split_dir (CHR ''/'' # q) = CHR ''/'' # d"
    by (simp add: Split_dir_def dropWhile_append notSlash_def) (metis rev_rev_ident)
  then show ?thesis unfolding Dir_def q using canon_Clean_rooted by auto
qed

section \<open>The codec round trip\<close>

lemma reassemble:
  "push_bit 18 (drop_bit 18 v AND 63) OR push_bit 12 (drop_bit 12 v AND 63) OR
   push_bit 6 (drop_bit 6 v AND 63) OR (v AND 63) = take_bit 24 (v::nat)"
proof -
  have m: "(63::nat) = mask 6" by (simp add: mask_eq_exp_minus_1)
  show ?thesis
    unfolding m
  proof (rule bit_eqI)
    fix n :: nat
    consider "n < 6" | "6 \<le> n" "n < 12" | "12 \<le> n" "n < 18" | "18 \<le> n" "n < 24" | "24 \<le> n"
      by linarith
    then show "bit (push_bit 18 (drop_bit 18 v AND mask 6) OR push_bit 12 (drop_bit 12 v AND mask 6) OR
                push_bit 6 (drop_bit 6 v AND mask 6) OR (v AND mask 6)) n = bit (take_bit 24 v) n"
      by cases (auto simp: bit_simps)
  qed
qed

lemma bytes3:
  fixes A B C :: nat
  assumes "A < 256" "B < 256" "C < 256"
  defines "v \<equiv> push_bit 16 A OR push_bit 8 B OR C"
  shows "take_bit 24 v = v" "take_bit 8 (drop_bit 16 v) = A" "take_bit 8 (drop_bit 8 v) = B" "take_bit 8 v = C"
proof -
  have a: "take_bit 8 A = A" "take_bit 8 B = B" "take_bit 8 C = C"
    using assms by (simp_all add: take_bit_nat_eq_self)
  have v: "v = push_bit 16 (take_bit 8 A) OR push_bit 8 (take_bit 8 B) OR take_bit 8 C"
    by (simp add: v_def a)
  show "take_bit 24 v = v" unfolding v by (rule bit_eqI) (auto simp: bit_simps)
  have "take_bit 8 (drop_bit 16 v) = take_bit 8 A" unfolding v by (rule bit_eqI) (auto simp: bit_simps)
  then show "take_bit 8 (drop_bit 16 v) = A" by (simp add: a)
  have "take_bit 8 (drop_bit 8 v) = take_bit 8 B" unfolding v by (rule bit_eqI) (auto simp: bit_simps)
  then show "take_bit 8 (drop_bit 8 v) = B" by (simp add: a)
  have "take_bit 8 v = take_bit 8 C" unfolding v by (rule bit_eqI) (auto simp: bit_simps)
  then show "take_bit 8 v = C" by (simp add: a)
qed


lemma index_from_nth:
  "distinct xs \<Longrightarrow> k < length xs \<Longrightarrow> index_from j (xs ! k) xs = Some (j + k)"
proof (induction xs arbitrary: j k)
  case Nil
  then show ?case by simp
next
  case (Cons x xs)
  show ?case
  proof (cases k)
    case 0
    then show ?thesis by simp
  next
    case (Suc k')
    then have "xs ! k' \<noteq> x" using Cons.prems by auto
    then show ?thesis using Suc Cons by auto
  qed
qed

lemma distinct_encodeStd: "distinct encodeStd"
  unfolding encodeStd_def by simp

lemma length_encodeStd: "length encodeStd = 64"
  unfolding encodeStd_def by simp

lemma and_63_less: "(v::nat) AND 63 < 64"
proof -
  have "v AND mask 6 < 2 ^ 6" by (simp only: flip: take_bit_eq_mask) (rule take_bit_nat_less_exp)
  then show ?thesis by (simp add: mask_eq_exp_minus_1)
qed

lemma decodeMap_enc6: "decodeMap (enc6 v) = Some (v AND 63)"
  using index_from_nth [OF distinct_encodeStd, of "v AND 63" 0] and_63_less [of v]
  by (simp add: decodeMap_def enc6_def length_encodeStd)

lemma decodeMap_pad: "decodeMap CHR ''='' = None"
  by (simp add: decodeMap_def encodeStd_def)

lemma sextets_high:
  "take_bit 8 (drop_bit 16 (push_bit 18 (drop_bit 18 v AND 63) OR push_bit 12 (drop_bit 12 v AND 63)))
   = take_bit 8 (drop_bit 16 (v::nat))"
proof -
  have m: "(63::nat) = mask 6" by (simp add: mask_eq_exp_minus_1)
  show ?thesis
    unfolding m
  proof (rule bit_eqI)
    fix n :: nat
    consider "n < 2" | "2 \<le> n" "n < 8" | "8 \<le> n" by linarith
    then show "bit (take_bit 8 (drop_bit 16 (push_bit 18 (drop_bit 18 v AND mask 6) OR
                  push_bit 12 (drop_bit 12 v AND mask 6)))) n = bit (take_bit 8 (drop_bit 16 v)) n"
      by cases (auto simp: bit_simps)
  qed
qed

lemma sextets_three:
  "push_bit 18 (drop_bit 18 v AND 63) OR push_bit 12 (drop_bit 12 v AND 63) OR
   push_bit 6 (drop_bit 6 v AND 63) = take_bit 24 (v::nat)" if "take_bit 6 v = 0"
proof -
  have "v AND 63 = 0" using that by (simp add: take_bit_eq_mask mask_eq_exp_minus_1)
  then show ?thesis using reassemble [of v] by simp
qed

lemma quantum3:
  "quantum_bytes
     [drop_bit 18 (push_bit 16 (of_char a) OR push_bit 8 (of_char b) OR of_char c) AND 63,
      drop_bit 12 (push_bit 16 (of_char a) OR push_bit 8 (of_char b) OR of_char c) AND 63,
      drop_bit 6 (push_bit 16 (of_char a) OR push_bit 8 (of_char b) OR of_char c) AND 63,
      (push_bit 16 (of_char a) OR push_bit 8 (of_char b) OR of_char c) AND 63] = [a, b, c]"
proof -
  let ?v = "push_bit 16 (of_char a) OR push_bit 8 (of_char b) OR (of_char c :: nat)"
  note b = bytes3 [of "of_char a" "of_char b" "of_char c", OF nat_of_char_less_256 nat_of_char_less_256 nat_of_char_less_256]
  have "quantum_val [drop_bit 18 ?v AND 63, drop_bit 12 ?v AND 63, drop_bit 6 ?v AND 63, ?v AND 63] = ?v"
    using reassemble [of ?v] b(1) by simp
  then show ?thesis using b(2,3,4) by (simp add: quantum_bytes_def char_of_eq_iff)
qed

lemma quantum2:
  "quantum_bytes
     [drop_bit 18 (push_bit 16 (of_char a) OR push_bit 8 (of_char b)) AND 63,
      drop_bit 12 (push_bit 16 (of_char a) OR push_bit 8 (of_char b)) AND 63,
      drop_bit 6 (push_bit 16 (of_char a) OR push_bit 8 (of_char b)) AND 63] = [a, b]"
proof -
  let ?v = "push_bit 16 (of_char a) OR push_bit 8 (of_char b) OR (0 :: nat)"
  note b = bytes3 [of "of_char a" "of_char b" 0, OF nat_of_char_less_256 nat_of_char_less_256]
  have "take_bit 6 (take_bit 8 ?v) = 0" using b(4) by simp
  then have "take_bit 6 ?v = 0" by (simp add: take_bit_take_bit)
  then have "quantum_val [drop_bit 18 ?v AND 63, drop_bit 12 ?v AND 63, drop_bit 6 ?v AND 63] = ?v"
    using sextets_three [of ?v] b(1) by simp
  then show ?thesis using b(2,3) by (simp add: quantum_bytes_def char_of_eq_iff)
qed

lemma quantum1:
  "quantum_bytes
     [drop_bit 18 (push_bit 16 (of_char a)) AND 63,
      drop_bit 12 (push_bit 16 (of_char a)) AND 63] = [a]"
proof -
  let ?v = "push_bit 16 (of_char a) OR push_bit 8 0 OR (0 :: nat)"
  note b = bytes3 [of "of_char a" 0 0, OF nat_of_char_less_256]
  have "take_bit 8 (drop_bit 16 (quantum_val [drop_bit 18 ?v AND 63, drop_bit 12 ?v AND 63])) = of_char a"
    using sextets_high [of ?v] b(2) by simp
  then show ?thesis by (simp add: quantum_bytes_def char_of_eq_iff)
qed

lemma decode_step3:
  "decodeQuanta [] (enc6 (drop_bit 18 v) # enc6 (drop_bit 12 v) # enc6 (drop_bit 6 v) # enc6 v # rest)
   = (case decodeQuanta [] rest of None \<Rightarrow> None
      | Some bs \<Rightarrow> Some (quantum_bytes [drop_bit 18 v AND 63, drop_bit 12 v AND 63,
                                        drop_bit 6 v AND 63, v AND 63] @ bs))"
  by (simp add: decodeMap_enc6 split: option.splits)

lemma decode_step2:
  "decodeQuanta [] [enc6 (drop_bit 18 v), enc6 (drop_bit 12 v), enc6 (drop_bit 6 v), CHR ''='']
   = Some (quantum_bytes [drop_bit 18 v AND 63, drop_bit 12 v AND 63, drop_bit 6 v AND 63])"
  by (simp add: decodeMap_enc6 decodeMap_pad isNL_def)

lemma decode_step1:
  "decodeQuanta [] [enc6 (drop_bit 18 v), enc6 (drop_bit 12 v), CHR ''='', CHR ''='']
   = Some (quantum_bytes [drop_bit 18 v AND 63, drop_bit 12 v AND 63])"
  by (simp add: decodeMap_enc6 decodeMap_pad isNL_def)

lemma decodeQuanta_EncodeToString: "decodeQuanta [] (EncodeToString b) = Some b"
proof (induction b rule: EncodeToString.induct)
  case (1 a b c src)
  show ?case
    unfolding EncodeToString.simps Let_def decode_step3 quantum3 using "1.IH" by simp
next
  case (2 a b)
  show ?case
    unfolding EncodeToString.simps Let_def decode_step2 quantum2 by simp
next
  case (3 a)
  show ?case
    unfolding EncodeToString.simps Let_def decode_step1 quantum1 by simp
next
  case 4
  show ?case by simp
qed

lemma DecodeString_EncodeToString: "DecodeString (EncodeToString b) = Some b"
  by (simp add: DecodeString_def decodeQuanta_EncodeToString)

text \<open>
  C4.  Decoding what the generator encoded gives the bytes back, with and without
  compression: \<open>makeAsset\<close> compresses when asked and base64-encodes, the decoding
  goroutine base64-decodes and inflates exactly when the descriptor says the content
  was compressed.  The zlib library enters through its own round trip on \<open>b\<close>.
\<close>

theorem codec_round_trip:
  assumes "compress \<Longrightarrow> zread (zwrite b) = Inr b"
  shows "decodeAsset zread (makeAsset zwrite compress source path b)
         = Inr (newFile (fileNameClean (Join ''/'' (TrimPrefix path source))) b)"
  using assms
  by (cases compress)
     (simp_all add: decodeAsset_def makeAsset_def descriptor_def DecodeString_EncodeToString)

theorem codec_round_trip_witness:
  "decodeAsset Inr (makeAsset id True ''web/asset'' ''web/asset/a.txt'' ''hi'')
   = Inr (newFile ''/a.txt'' ''hi'') \<and>
   decodeAsset Inr (makeAsset id False ''web/asset'' ''web/asset/a.txt'' ''hi'')
   = Inr (newFile ''/a.txt'' ''hi'')"
proof -
  have n: "fileNameClean (Join ''/'' (TrimPrefix ''web/asset/a.txt'' ''web/asset'')) = ''/a.txt''"
    by (simp add: fileNameClean_def Join_def Clean_def TrimPrefix_def HasPrefix_def
        clean_loop.simps notSlash_def)
  show ?thesis
    using codec_round_trip [of True Inr id "''hi''" "''web/asset''" "''web/asset/a.txt''"]
      codec_round_trip [of False Inr id "''hi''" "''web/asset''" "''web/asset/a.txt''"]
    by (simp add: n)
qed

section \<open>What reload builds\<close>

lemma decodeAsset_Inr:
  "decodeAsset zread d = Inr a \<Longrightarrow> \<exists>c. a = newFile (fileNameClean (AName d)) c"
  by (auto simp: decodeAsset_def Let_def split: option.splits if_splits sum.splits zlib_error.splits)

lemma newFile_sel [simp]:
  "AName (newFile n c) = n" "isDir (newFile n c) = False" "content (newFile n c) = c"
  "size (newFile n c) = int (length c)" "ReadSeeker (newFile n c) = None"
  by (simp_all add: newFile_def)

lemma newDir_sel [simp]:
  "AName (newDir n) = n" "isDir (newDir n) = True" "content (newDir n) = n"
  "size (newDir n) = int (length n)" "ReadSeeker (newDir n) = None"
  by (simp_all add: newDir_def)

lemma collect_lookup:
  "collect rs m0 = (err, m) \<Longrightarrow> m k = Some a \<Longrightarrow> (Inr a \<in> set rs \<and> AName a = k) \<or> m0 k = Some a"
  by (induction rs m0 rule: collect.induct) (auto split: if_splits)

lemma collect_dom:
  "collect rs m0 = (None, m) \<Longrightarrow> dom m = dom m0 \<union> {AName a | a. Inr a \<in> set rs}"
  by (induction rs m0 rule: collect.induct) auto

lemma collect_ok:
  "(\<forall>e. Inl e \<notin> set rs) \<Longrightarrow> \<exists>m. collect rs m0 = (None, m)"
  by (induction rs m0 rule: collect.induct) auto

lemma collect_fails:
  "Inl e \<in> set rs \<Longrightarrow> \<exists>e' m. collect rs m0 = (Some e', m) \<and> Inl e' \<in> set rs"
  by (induction rs m0 rule: collect.induct) auto

lemma collect_None_all:
  "collect rs m0 = (None, m) \<Longrightarrow> Inl e \<notin> set rs"
  by (induction rs m0 rule: collect.induct) auto

lemma collect_wf:
  assumes "collect (map (decodeAsset zread) ds) Map.empty = (err, m)"
  shows "wf_map m"
  unfolding wf_map_def
proof (intro allI impI)
  fix k a
  assume "m k = Some a"
  from collect_lookup [OF assms this] obtain d where "decodeAsset zread d = Inr a" "AName a = k"
    by auto
  then show "AName a = k \<and> canon k \<and> (isDir a \<longrightarrow> content a = k \<and> size a = int (length k))"
    using decodeAsset_Inr [of zread d a] canon_fileNameClean by auto
qed

lemma Belong_map_canon: "canon d \<Longrightarrow> Belong_map m d \<longleftrightarrow> m d \<noteq> None"
  by (simp add: Belong_map_def fileNameClean_canon)

lemma fill_dir_cases:
  assumes "wf_map m"
  shows "fill_dir k m = m \<or>
         (\<exists>a. m k = Some a \<and> canon (Dir k) \<and> m (Dir k) = None \<and> fill_dir k m = m(Dir k \<mapsto> newDir (Dir k)))"
proof (cases "m k")
  case None
  then show ?thesis by (simp add: fill_dir_def)
next
  case (Some a)
  then have a: "AName a = k" "canon k" using assms by (auto simp: wf_map_def)
  then have "canon (Dir k)" by (simp add: canon_Dir)
  then show ?thesis using Some a by (auto simp: fill_dir_def Let_def Belong_map_canon)
qed

lemma fill_dir_wf: "wf_map m \<Longrightarrow> wf_map (fill_dir k m)"
  using fill_dir_cases [of m k] by (auto simp: wf_map_def split: if_splits)

lemma fill_dir_keeps: "wf_map m \<Longrightarrow> m k' = Some a \<Longrightarrow> fill_dir k m k' = Some a"
  using fill_dir_cases [of m k] by auto

lemma fill_dir_parent: "wf_map m \<Longrightarrow> m k = Some a \<Longrightarrow> fill_dir k m (Dir k) \<noteq> None"
proof -
  assume w: "wf_map m" and k: "m k = Some a"
  then have a: "AName a = k" "canon (Dir k)" by (auto simp: wf_map_def canon_Dir)
  show ?thesis using k a by (auto simp: fill_dir_def Let_def Belong_map_canon)
qed

lemma fill_dir_new:
  "wf_map m \<Longrightarrow> fill_dir k m k' = Some a \<Longrightarrow> m k' = Some a \<or> (m k' = None \<and> a = newDir k')"
  using fill_dir_cases [of m k] by (auto split: if_splits)

lemma fill_dirs_wf: "wf_map m \<Longrightarrow> wf_map (fill_dirs ks m)"
  by (induction ks arbitrary: m) (simp_all add: fill_dir_wf)

lemma fill_dirs_keeps: "wf_map m \<Longrightarrow> m k' = Some a \<Longrightarrow> fill_dirs ks m k' = Some a"
  by (induction ks arbitrary: m) (simp_all add: fill_dir_wf fill_dir_keeps)

lemma fill_dirs_new:
  "wf_map m \<Longrightarrow> fill_dirs ks m k' = Some a \<Longrightarrow> m k' = Some a \<or> (m k' = None \<and> a = newDir k')"
proof (induction ks arbitrary: m)
  case Nil
  then show ?case by simp
next
  case (Cons k ks)
  from Cons.IH [OF fill_dir_wf [OF Cons.prems(1)], of k] Cons.prems(2)
  have "fill_dir k m k' = Some a \<or> (fill_dir k m k' = None \<and> a = newDir k')" by simp
  then show ?case using fill_dir_new [OF Cons.prems(1), of k k' a] fill_dir_keeps [OF Cons.prems(1), of k' _ k]
    by (cases "m k'") auto
qed

lemma fill_dirs_parent:
  "wf_map m \<Longrightarrow> m k = Some a \<Longrightarrow> k \<in> set ks \<Longrightarrow> fill_dirs ks m (Dir k) \<noteq> None"
proof (induction ks arbitrary: m)
  case Nil
  then show ?case by simp
next
  case (Cons k' ks)
  have w: "wf_map (fill_dir k' m)" using Cons.prems(1) by (rule fill_dir_wf)
  have keep: "fill_dir k' m k = Some a" using Cons.prems(1,2) by (rule fill_dir_keeps)
  show ?case
  proof (cases "k = k'")
    case True
    from fill_dir_parent [OF Cons.prems(1,2)] obtain p where "fill_dir k m (Dir k) = Some p" by auto
    then show ?thesis using True fill_dirs_keeps [OF w, of "Dir k" p ks] by simp
  next
    case False
    then show ?thesis using Cons.IH [OF w keep] Cons.prems(3) by simp
  qed
qed

lemma reload_ok:
  assumes "reload zread registered arrived ks afs = (None, afs')"
  obtains m where "collect (map (decodeAsset zread) arrived) Map.empty = (None, m)"
    and "afs' = afs\<lparr>assets := Some (fill_dirs ks m)\<rparr>" and "wf_map m" and "registered \<noteq> []"
proof -
  obtain err m where c: "collect (map (decodeAsset zread) arrived) Map.empty = (err, m)"
    by (cases "collect (map (decodeAsset zread) arrived) Map.empty")
  then show ?thesis using assms that collect_wf [OF c]
    by (cases err) (auto simp: reload_def split: if_splits)
qed

lemma lookup_store:
  "lookup (store afs k a) k' =
     (if assets afs = None then None else if k' = k then Some a else lookup afs k')"
  by (auto simp: lookup_def store_def split: option.splits)

lemma lookup_assets [simp]: "lookup (afs\<lparr>assets := Some m\<rparr>) k = m k"
  by (simp add: lookup_def)

lemma lookup_Some_assets: "lookup afs k = Some a \<Longrightarrow> assets afs \<noteq> None"
  by (auto simp: lookup_def split: option.splits)

lemma decoded_all:
  assumes "collect (map (decodeAsset zread) arrived) Map.empty = (None, m)" and "d \<in> set arrived"
  obtains c where "decodeAsset zread d = Inr (newFile (fileNameClean (AName d)) c)"
proof -
  have "decodeAsset zread d \<noteq> Inl e" for e
  proof
    assume "decodeAsset zread d = Inl e"
    then have "Inl e \<in> set (map (decodeAsset zread) arrived)" using assms(2) by force
    then show False using collect_None_all [OF assms(1)] by blast
  qed
  then obtain a where "decodeAsset zread d = Inr a" by (cases "decodeAsset zread d") auto
  then show ?thesis using decodeAsset_Inr [of zread d a] that by auto
qed

lemma collected_entry:
  assumes "collect (map (decodeAsset zread) arrived) Map.empty = (err, m)" and "m k = Some a"
  obtains d c where "d \<in> set arrived" "decodeAsset zread d = Inr a" "fileNameClean (AName d) = k"
    "a = newFile k c"
proof -
  from collect_lookup [OF assms] obtain d where d: "d \<in> set arrived" "decodeAsset zread d = Inr a"
    "AName a = k" by auto
  then show ?thesis using decodeAsset_Inr [of zread d a] that by auto
qed

lemma collected_dom:
  assumes "collect (map (decodeAsset zread) arrived) Map.empty = (None, m)"
  shows "dom m = (\<lambda>d. fileNameClean (AName d)) ` set arrived"
proof -
  have "dom m = {AName a | a. Inr a \<in> decodeAsset zread ` set arrived}"
    using collect_dom [OF assms] by simp
  also have "\<dots> = (\<lambda>d. fileNameClean (AName d)) ` set arrived"
  proof (intro set_eqI iffI)
    fix k assume "k \<in> {AName a | a. Inr a \<in> decodeAsset zread ` set arrived}"
    then obtain a where "Inr a \<in> decodeAsset zread ` set arrived" "k = AName a" by auto
    then obtain d where "d \<in> set arrived" "decodeAsset zread d = Inr a" "k = AName a"
      by (metis imageE)
    then show "k \<in> (\<lambda>d. fileNameClean (AName d)) ` set arrived"
      using decodeAsset_Inr [of zread d a] by auto
  next
    fix k assume "k \<in> (\<lambda>d. fileNameClean (AName d)) ` set arrived"
    then obtain d where d: "d \<in> set arrived" "k = fileNameClean (AName d)" by auto
    from decoded_all [OF assms d(1)] obtain c where
      "decodeAsset zread d = Inr (newFile (fileNameClean (AName d)) c)" .
    then have "Inr (newFile k c) \<in> decodeAsset zread ` set arrived" using d by force
    moreover have "k = AName (newFile k c)" by simp
    ultimately show "k \<in> {AName a | a. Inr a \<in> decodeAsset zread ` set arrived}" by blast
  qed
  finally show ?thesis .
qed

lemma collect_dom_prefix:
  "collect rs m0 = (err, m) \<Longrightarrow>
   dom m = dom m0 \<union> {AName a | a. Inr a \<in> set (takeWhile (\<lambda>r. \<not> isl r) rs)}"
  by (induction rs m0 rule: collect.induct) auto

lemma collected_dom_prefix:
  assumes "collect (map (decodeAsset zread) arrived) Map.empty = (err, m)"
  shows "dom m = (\<lambda>x. fileNameClean (AName x)) `
                   set (takeWhile (\<lambda>x. \<not> isl (decodeAsset zread x)) arrived)"
proof -
  let ?pre = "takeWhile (\<lambda>x. \<not> isl (decodeAsset zread x)) arrived"
  have tw: "takeWhile (\<lambda>r. \<not> isl r) (map (decodeAsset zread) arrived) = map (decodeAsset zread) ?pre"
    by (simp add: takeWhile_map comp_def)
  have "dom m = {AName a | a. Inr a \<in> decodeAsset zread ` set ?pre}"
    using collect_dom_prefix [OF assms] unfolding tw by simp
  also have "\<dots> = (\<lambda>x. fileNameClean (AName x)) ` set ?pre"
  proof (intro set_eqI iffI)
    fix k assume "k \<in> {AName a | a. Inr a \<in> decodeAsset zread ` set ?pre}"
    then obtain a where "Inr a \<in> decodeAsset zread ` set ?pre" "k = AName a" by auto
    then obtain d where "d \<in> set ?pre" "decodeAsset zread d = Inr a" "k = AName a"
      by (metis imageE)
    then show "k \<in> (\<lambda>x. fileNameClean (AName x)) ` set ?pre"
      using decodeAsset_Inr [of zread d a] by auto
  next
    fix k assume "k \<in> (\<lambda>x. fileNameClean (AName x)) ` set ?pre"
    then obtain d where d: "d \<in> set ?pre" "k = fileNameClean (AName d)" by auto
    then have "\<not> isl (decodeAsset zread d)" using set_takeWhileD by fast
    then obtain a where a: "decodeAsset zread d = Inr a" by (cases "decodeAsset zread d") auto
    then have "AName a = k" using decodeAsset_Inr [of zread d a] d(2) by auto
    moreover have "Inr a \<in> decodeAsset zread ` set ?pre" using a d(1) by force
    ultimately show "k \<in> {AName a | a. Inr a \<in> decodeAsset zread ` set ?pre}" by blast
  qed
  finally show ?thesis .
qed

lemma collect_last:
  "collect rs m0 = (err, m) \<Longrightarrow>
   (m k = Some a) =
     ((\<exists>ys zs. takeWhile (\<lambda>r. \<not> isl r) rs = ys @ Inr a # zs \<and> AName a = k \<and>
               (\<forall>z. Inr z \<in> set zs \<longrightarrow> AName z \<noteq> k)) \<or>
      (m0 k = Some a \<and> (\<forall>z. Inr z \<in> set (takeWhile (\<lambda>r. \<not> isl r) rs) \<longrightarrow> AName z \<noteq> k)))"
proof (induction rs m0 rule: collect.induct)
  case (1 m0)
  then show ?case by simp
next
  case (2 e rs m0)
  then show ?case by simp
next
  case (3 b rs m0)
  let ?tw = "takeWhile (\<lambda>r. \<not> isl r) rs"
  have c: "collect rs (m0(AName b \<mapsto> b)) = (err, m)" using "3.prems" by simp
  note IH = "3.IH" [OF c]
  have split: "(\<exists>ys zs. Inr b # ?tw = ys @ Inr a # zs \<and> AName a = k \<and>
                  (\<forall>z. Inr z \<in> set zs \<longrightarrow> AName z \<noteq> k))
        \<longleftrightarrow> (a = b \<and> AName a = k \<and> (\<forall>z. Inr z \<in> set ?tw \<longrightarrow> AName z \<noteq> k)) \<or>
            (\<exists>ys zs. ?tw = ys @ Inr a # zs \<and> AName a = k \<and>
                  (\<forall>z. Inr z \<in> set zs \<longrightarrow> AName z \<noteq> k))"
    by (auto simp: Cons_eq_append_conv)
  show ?case
    unfolding IH using split by (auto split: if_splits)
qed


lemma collected_last:
  assumes "collect (map (decodeAsset zread) arrived) Map.empty = (err, m)"
  shows "(m k = Some a) =
     (\<exists>ys x zs. takeWhile (\<lambda>x. \<not> isl (decodeAsset zread x)) arrived = ys @ x # zs \<and>
        decodeAsset zread x = Inr a \<and> fileNameClean (AName x) = k \<and>
        (\<forall>z \<in> set zs. fileNameClean (AName z) \<noteq> k))"
proof -
  let ?f = "decodeAsset zread"
  let ?pre = "takeWhile (\<lambda>x. \<not> isl (?f x)) arrived"
  have tw: "takeWhile (\<lambda>r. \<not> isl r) (map ?f arrived) = map ?f ?pre"
    by (simp add: takeWhile_map comp_def)
  have name: "AName b = fileNameClean (AName x)" if "?f x = Inr b" for x b
    using decodeAsset_Inr [OF that] by auto
  have pre_ok: "\<exists>b. ?f z = Inr b" if "z \<in> set ?pre" for z
  proof -
    have "\<not> isl (?f z)" using that set_takeWhileD by fast
    then show ?thesis by (cases "?f z") auto
  qed
  have L: "(m k = Some a) =
      (\<exists>ys zs. map ?f ?pre = ys @ Inr a # zs \<and> AName a = k \<and>
               (\<forall>z. Inr z \<in> set zs \<longrightarrow> AName z \<noteq> k))"
    using collect_last [OF assms, of k a] unfolding tw by simp
  show ?thesis
    unfolding L
  proof
    assume "\<exists>ys zs. map ?f ?pre = ys @ Inr a # zs \<and> AName a = k \<and>
               (\<forall>z. Inr z \<in> set zs \<longrightarrow> AName z \<noteq> k)"
    then obtain ys zs where m: "map ?f ?pre = ys @ Inr a # zs" and k: "AName a = k"
      and later: "\<forall>z. Inr z \<in> set zs \<longrightarrow> AName z \<noteq> k" by blast
    from m obtain us vs where uv: "?pre = us @ vs" "Inr a # zs = map ?f vs"
      by (auto simp: map_eq_append_conv)
    then obtain x ws where xw: "vs = x # ws" "?f x = Inr a" "zs = map ?f ws"
      by (cases vs) auto
    have "fileNameClean (AName z) \<noteq> k" if z: "z \<in> set ws" for z
    proof -
      have "z \<in> set ?pre" using z uv(1) xw(1) by simp
      from pre_ok [OF this] obtain b where b: "?f z = Inr b" by blast
      then have "Inr b \<in> set zs" using z xw(3) by force
      then show ?thesis using later name [OF b] by auto
    qed
    then show "\<exists>ys x zs. ?pre = ys @ x # zs \<and> ?f x = Inr a \<and> fileNameClean (AName x) = k \<and>
        (\<forall>z \<in> set zs. fileNameClean (AName z) \<noteq> k)"
      using uv(1) xw(1,2) k name [OF xw(2)] by auto
  next
    assume "\<exists>ys x zs. ?pre = ys @ x # zs \<and> ?f x = Inr a \<and> fileNameClean (AName x) = k \<and>
        (\<forall>z \<in> set zs. fileNameClean (AName z) \<noteq> k)"
    then obtain ys x zs where p: "?pre = ys @ x # zs" and x: "?f x = Inr a"
      and k: "fileNameClean (AName x) = k"
      and later: "\<forall>z \<in> set zs. fileNameClean (AName z) \<noteq> k" by blast
    have "map ?f ?pre = map ?f ys @ Inr a # map ?f zs" using p x by simp
    moreover have "AName a = k" using name [OF x] k by simp
    moreover have "\<forall>b. Inr b \<in> set (map ?f zs) \<longrightarrow> AName b \<noteq> k"
    proof (intro allI impI)
      fix b assume "Inr b \<in> set (map ?f zs)"
      then obtain z where "z \<in> set zs" "?f z = Inr b" by (metis imageE set_map)
      then show "AName b \<noteq> k" using later name [of z b] by auto
    qed
    ultimately show "\<exists>ys zs. map ?f ?pre = ys @ Inr a # zs \<and> AName a = k \<and>
               (\<forall>z. Inr z \<in> set zs \<longrightarrow> AName z \<noteq> k)" by blast
  qed
qed

section \<open>Reload with an empty registry\<close>

text \<open>
  C6.  When the registry holds no descriptor, reload fails at once with the
  empty-registry error and leaves the file system as it was, whatever the schedule;
  a file system that never had a snapshot (its map is nil) still has none.
\<close>

theorem reload_empty_registry:
  "reload zread [] arrived ks afs = (Some NoFsData, afs) \<and>
   assets (snd (reload zread [] arrived ks onceAFS)) = None"
  by (simp add: reload_def onceAFS_def)

section \<open>Reload with a descriptor that fails to decode\<close>

text \<open>
  C1, as the code has it.  When a registered descriptor fails to decode, reload
  returns an error, and the map of the file system is replaced by a new map: it
  holds the decoded file entries of exactly the descriptors whose results arrived
  before the first failure, under a name that several of them share the one that
  arrived last, no directory, and nothing of the map before the reload.  When the
  first result to arrive is a failure the new map is empty, and opening any name
  fails with the not-found error.
\<close>

theorem reload_decode_failure:
  assumes "mset arrived = mset registered" and "d \<in> set registered"
    and "isl (decodeAsset zread d)"
  shows "\<exists>e m. reload zread registered arrived ks afs = (Some e, afs\<lparr>assets := Some m\<rparr>) \<and>
           dom m = (\<lambda>x. fileNameClean (AName x)) `
                     set (takeWhile (\<lambda>x. \<not> isl (decodeAsset zread x)) arrived) \<and>
           (\<forall>k a. m k = Some a \<longleftrightarrow>
              (\<exists>ys x zs. takeWhile (\<lambda>x. \<not> isl (decodeAsset zread x)) arrived = ys @ x # zs \<and>
                 decodeAsset zread x = Inr a \<and> fileNameClean (AName x) = k \<and>
                 (\<forall>z \<in> set zs. fileNameClean (AName z) \<noteq> k))) \<and>
           (\<forall>k a. m k = Some a \<longrightarrow>
              \<not> isDir a \<and>
              (\<exists>x \<in> set registered. decodeAsset zread x = Inr a \<and> fileNameClean (AName x) = k)) \<and>
           (isl (decodeAsset zread (hd arrived)) \<longrightarrow>
              (\<forall>name. fst (Open (afs\<lparr>assets := Some m\<rparr>) name) = Inl (OpenFile ErrNotExist)))"
proof -
  have perm: "set arrived = set registered" using assms(1) by (rule mset_eq_setD)
  have ne: "registered \<noteq> []" "arrived \<noteq> []" using assms(2) perm by auto
  obtain e0 where "decodeAsset zread d = Inl e0" using assms(3) by (cases "decodeAsset zread d") auto
  then have "Inl e0 \<in> set (map (decodeAsset zread) arrived)" using assms(2) perm by force
  from collect_fails [OF this, of Map.empty] obtain e m where
    c: "collect (map (decodeAsset zread) arrived) Map.empty = (Some e, m)" by blast
  have r: "reload zread registered arrived ks afs = (Some e, afs\<lparr>assets := Some m\<rparr>)"
    using c ne(1) by (simp add: reload_def)
  have dm: "dom m = (\<lambda>x. fileNameClean (AName x)) `
                      set (takeWhile (\<lambda>x. \<not> isl (decodeAsset zread x)) arrived)"
    using c by (rule collected_dom_prefix)
  have last: "\<forall>k a. m k = Some a \<longleftrightarrow>
      (\<exists>ys x zs. takeWhile (\<lambda>x. \<not> isl (decodeAsset zread x)) arrived = ys @ x # zs \<and>
         decodeAsset zread x = Inr a \<and> fileNameClean (AName x) = k \<and>
         (\<forall>z \<in> set zs. fileNameClean (AName z) \<noteq> k))"
    by (intro allI) (rule collected_last [OF c])
  have ent: "\<not> isDir a \<and>
        (\<exists>x \<in> set registered. decodeAsset zread x = Inr a \<and> fileNameClean (AName x) = k)"
    if mk: "m k = Some a" for k a
  proof -
    obtain x c0 where "x \<in> set arrived" "decodeAsset zread x = Inr a"
      "fileNameClean (AName x) = k" "a = newFile k c0"
      by (rule collected_entry [OF c mk])
    then show ?thesis using perm by auto
  qed
  have op: "fst (Open (afs\<lparr>assets := Some m\<rparr>) name) = Inl (OpenFile ErrNotExist)"
    if "isl (decodeAsset zread (hd arrived))" for name
  proof -
    have "takeWhile (\<lambda>x. \<not> isl (decodeAsset zread x)) arrived = []"
      using that ne(2) by (cases arrived) auto
    then have "dom m = {}" using dm by simp
    then have "m (fileNameClean name) = None" by blast
    then show ?thesis by (simp add: Open_def asset_def)
  qed
  have ent': "\<forall>k a. m k = Some a \<longrightarrow>
      \<not> isDir a \<and>
      (\<exists>x \<in> set registered. decodeAsset zread x = Inr a \<and> fileNameClean (AName x) = k)"
    using ent by blast
  have op': "isl (decodeAsset zread (hd arrived)) \<longrightarrow>
      (\<forall>name. fst (Open (afs\<lparr>assets := Some m\<rparr>) name) = Inl (OpenFile ErrNotExist))"
    using op by blast
  show ?thesis
    by (rule exI [of _ e], rule exI [of _ m]) (intro conjI r dm last ent' op')
qed

section \<open>Directories filled in by reload\<close>

text \<open>
  C2, as the code has it.  After a successful reload every registered descriptor
  has its file entry under its normalized name, and an entry exists for the
  parent path of that name; the parent entry is marked as a directory exactly
  when no registered descriptor normalizes to the parent path.
\<close>

theorem reload_parent_directory:
  assumes "reload zread registered arrived ks afs = (None, afs')"
    and "schedule zread registered arrived ks"
    and "d \<in> set registered"
  shows "\<exists>a p. lookup afs' (fileNameClean (AName d)) = Some a \<and> \<not> isDir a \<and>
               lookup afs' (Dir (fileNameClean (AName d))) = Some p \<and>
               (isDir p \<longleftrightarrow>
                  (\<forall>x \<in> set registered. fileNameClean (AName x) \<noteq> Dir (fileNameClean (AName d))))"
proof -
  let ?n = "fileNameClean (AName d)"
  from reload_ok [OF assms(1)] obtain m where
    c: "collect (map (decodeAsset zread) arrived) Map.empty = (None, m)"
    and afs': "afs' = afs\<lparr>assets := Some (fill_dirs ks m)\<rparr>" and wf: "wf_map m" by blast
  have "mset arrived = mset registered" using assms(2) by (simp add: schedule_def)
  then have perm: "set arrived = set registered" by (rule mset_eq_setD)
  have ro: "range_order m ks" using assms(2) c by (simp add: schedule_def)
  have dm: "dom m = (\<lambda>d. fileNameClean (AName d)) ` set registered"
    using collected_dom [OF c] perm by simp
  then have "?n \<in> dom m" using assms(3) by blast
  then obtain a where a: "m ?n = Some a" by auto
  obtain c0 where "a = newFile ?n c0" by (rule collected_entry [OF c a])
  then have nd: "\<not> isDir a" by simp
  have keep: "fill_dirs ks m ?n = Some a" using wf a by (rule fill_dirs_keeps)
  have "?n \<in> set ks" using ro \<open>?n \<in> dom m\<close> by (auto simp: range_order_def)
  from fill_dirs_parent [OF wf a this] obtain p where p: "fill_dirs ks m (Dir ?n) = Some p" by auto
  have "isDir p \<longleftrightarrow> Dir ?n \<notin> dom m"
  proof (cases "m (Dir ?n)")
    case None
    then show ?thesis using fill_dirs_new [OF wf p] by auto
  next
    case (Some q)
    then have "p = q" using fill_dirs_keeps [OF wf Some, of ks] p by simp
    moreover obtain c1 where "q = newFile (Dir ?n) c1" by (rule collected_entry [OF c Some])
    ultimately show ?thesis using Some by auto
  qed
  then have "isDir p \<longleftrightarrow> (\<forall>x \<in> set registered. fileNameClean (AName x) \<noteq> Dir ?n)"
    unfolding dm by (simp add: image_iff) metis
  moreover have "lookup afs' ?n = Some a" "lookup afs' (Dir ?n) = Some p"
    using keep p afs' by simp_all
  ultimately show ?thesis using nd by blast
qed

text \<open>
  C10.  After a successful reload, every directory entry of the snapshot carries
  its own path as content and the length of the path as size; opening its name
  succeeds, returns the pointer to that entry with a new reader over the path, and
  reading through the handle yields the path.
\<close>

theorem open_directory:
  assumes "reload zread registered arrived ks afs = (None, afs')"
    and "lookup afs' d = Some a" and "isDir a"
  shows "content a = d \<and> size a = int (length d) \<and>
         Open afs' d = (Inr d, store afs' d (a\<lparr>ReadSeeker := Some \<lparr>s = d, i = 0\<rparr>\<rparr>)) \<and>
         fst (Read (snd (Open afs' d)) d (length d)) = Inr d"
proof -
  from reload_ok [OF assms(1)] obtain m where
    afs': "afs' = afs\<lparr>assets := Some (fill_dirs ks m)\<rparr>" and wf: "wf_map m" by blast
  have "wf_map (fill_dirs ks m)" using wf by (rule fill_dirs_wf)
  moreover have "fill_dirs ks m d = Some a" using assms(2) afs' by simp
  ultimately have a: "AName a = d" "canon d" "content a = d" "size a = int (length d)"
    using assms(3) by (auto simp: wf_map_def)
  have cl: "fileNameClean d = d" using a(2) by (rule fileNameClean_canon)
  have op: "Open afs' d = (Inr d, store afs' d (a\<lparr>ReadSeeker := Some \<lparr>s = d, i = 0\<rparr>\<rparr>))"
    using assms(2) a(3) by (simp add: Open_def asset_def cl)
  have ne: "d \<noteq> []" using a(2) canon_nonempty by blast
  have "fst (Read (store afs' d (a\<lparr>ReadSeeker := Some \<lparr>s = d, i = 0\<rparr>\<rparr>)) d (length d)) = Inr d"
    using ne lookup_Some_assets [OF assms(2)]
    by (simp add: Read_def lookup_store Reader_Read_def Let_def)
  then show ?thesis using a op by simp
qed

section \<open>Listing a directory\<close>

lemma set_map_filter: "set (List.map_filter f xs) = {y. \<exists>x \<in> set xs. f x = Some y}"
  by (induction xs) (auto simp: List.map_filter_simps split: option.splits)

text \<open>
  C5, as the code has it.  Listing a directory entry returns exactly the entries of
  the file system whose name has the name of the directory as a strict prefix of
  its bytes; listing an entry that is not a directory returns nothing.
\<close>

theorem Readdir_string_prefix:
  assumes "range_keys assetFileSystem ks"
  shows "(isDir d \<longrightarrow>
            set (Readdir assetFileSystem ks d)
            = {e. \<exists>n. lookup assetFileSystem n = Some e \<and> HasPrefix n (AName d)
                       \<and> length (AName d) < length n})
         \<and> (\<not> isDir d \<longrightarrow> Readdir assetFileSystem ks d = [])"
proof -
  have ks: "set ks = {k. lookup assetFileSystem k \<noteq> None}"
    using assms by (simp add: range_keys_def)
  have "set (Readdir assetFileSystem ks d)
        = {e. \<exists>n. lookup assetFileSystem n = Some e \<and> HasPrefix n (AName d)
                   \<and> length (AName d) < length n}" if "isDir d"
    using that ks by (auto simp: Readdir_def set_map_filter split: if_splits)
  then show ?thesis by (simp add: Readdir_def)
qed

section \<open>Templates\<close>

lemma ExecTemplate_append:
  "ExecTemplate P E pre data afs = (None, afs1) \<Longrightarrow>
   ExecTemplate P E (pre @ rest) data afs = ExecTemplate P E rest data afs1"
  by (induction pre arbitrary: afs)
     (auto split: sum.splits option.splits if_splits prod.splits)

text \<open>
  C9.  ExecTemplate is not atomic: when the names before \<open>k\<close> are processed
  without error and the name \<open>k\<close> fails (it is absent, it is a directory, or
  its template does not parse or render), the call returns that error and the file
  system is the one the earlier names left, with their new content and size.
\<close>

theorem ExecTemplate_not_atomic:
  assumes "ExecTemplate P E pre data afs = (None, afs1)"
    and "fst (ExecTemplate P E [k] data afs1) = Some e"
  shows "ExecTemplate P E (pre @ k # post) data afs = (Some e, afs1)"
proof -
  have "ExecTemplate P E (k # post) data afs1 = (Some e, afs1)"
    using assms(2) by (auto split: sum.splits option.splits if_splits prod.splits)
  then show ?thesis using ExecTemplate_append [OF assms(1), of "k # post"] by simp
qed

text \<open>
  C7, as the code has it.  Templating a file asset overwrites content and size of
  that one entry of the live map and nothing else; the registry is no part of what
  ExecTemplate touches, so the next reload succeeds as the one before did and the
  entry is again the content decoded from its descriptor, when that descriptor is
  the only one registered under its normalized name.
\<close>

theorem template_not_rederived:
  assumes "reload zread registered arr1 ks1 afs0 = (None, afs1)"
    and "mset arr1 = mset registered" and "mset arr2 = mset registered"
    and "d \<in> set registered"
    and "\<forall>x \<in> set registered. fileNameClean (AName x) = fileNameClean (AName d) \<longrightarrow> x = d"
    and "fileNameClean name = fileNameClean (AName d)"
    and "ExecTemplate parse execute [name] data afs1 = (None, afs2)"
  shows "\<exists>c tpl buf afs3.
           decodeAsset zread d = Inr (newFile (fileNameClean name) c) \<and>
           lookup afs1 (fileNameClean name) = Some (newFile (fileNameClean name) c) \<and>
           parse name c = Some tpl \<and> execute tpl data = Some buf \<and>
           lookup afs2 (fileNameClean name)
             = Some ((newFile (fileNameClean name) c)\<lparr>content := buf, size := int (length buf)\<rparr>) \<and>
           (\<forall>k. k \<noteq> fileNameClean name \<longrightarrow> lookup afs2 k = lookup afs1 k) \<and>
           reload zread registered arr2 ks2 afs2 = (None, afs3) \<and>
           lookup afs3 (fileNameClean name) = Some (newFile (fileNameClean name) c)"
proof -
  let ?n = "fileNameClean name"
  have p1: "set arr1 = set registered" and p2: "set arr2 = set registered"
    using assms(2,3) by (auto dest: mset_eq_setD)
  from reload_ok [OF assms(1)] obtain m1 where
    c1: "collect (map (decodeAsset zread) arr1) Map.empty = (None, m1)"
    and afs1: "afs1 = afs0\<lparr>assets := Some (fill_dirs ks1 m1)\<rparr>" and wf1: "wf_map m1"
    and ne: "registered \<noteq> []" by blast
  have dec: "\<exists>c. decodeAsset zread d = Inr (newFile ?n c) \<and> m ?n = Some (newFile ?n c)"
    if c: "collect (map (decodeAsset zread) arr) Map.empty = (None, m)"
      and p: "set arr = set registered" for arr m
  proof -
    have "d \<in> set arr" using assms(4) p by simp
    from decoded_all [OF c this] obtain c0 where
      d: "decodeAsset zread d = Inr (newFile ?n c0)" using assms(6) by auto
    have "?n \<in> dom m" using collected_dom [OF c] \<open>d \<in> set arr\<close> assms(6) by force
    then obtain a where a: "m ?n = Some a" by auto
    obtain x c1 where "x \<in> set arr" "decodeAsset zread x = Inr a" "fileNameClean (AName x) = ?n"
      by (rule collected_entry [OF c a])
    then have "x = d" using assms(5,6) p by auto
    then show ?thesis using \<open>decodeAsset zread x = Inr a\<close> d a by auto
  qed
  from dec [OF c1 p1] obtain c where
    d: "decodeAsset zread d = Inr (newFile ?n c)" and m1: "m1 ?n = Some (newFile ?n c)" by blast
  have l1: "lookup afs1 ?n = Some (newFile ?n c)"
    using fill_dirs_keeps [OF wf1 m1, of ks1] afs1 by simp
  from assms(7) l1 obtain tpl buf where
    pe: "parse name c = Some tpl" "execute tpl data = Some buf"
    and afs2: "afs2 = store afs1 ?n ((newFile ?n c)\<lparr>content := buf, size := int (length buf)\<rparr>)"
    by (auto simp: asset_def split: option.splits if_splits)
  have l2: "lookup afs2 ?n = Some ((newFile ?n c)\<lparr>content := buf, size := int (length buf)\<rparr>)"
    and other: "\<forall>k. k \<noteq> ?n \<longrightarrow> lookup afs2 k = lookup afs1 k"
    using afs1 by (simp_all add: afs2 lookup_store)
  have "\<forall>e. Inl e \<notin> set (map (decodeAsset zread) arr2)"
    using collect_None_all [OF c1] p1 p2 by simp
  from collect_ok [OF this, of Map.empty] obtain m2 where
    c2: "collect (map (decodeAsset zread) arr2) Map.empty = (None, m2)" by blast
  have r2: "reload zread registered arr2 ks2 afs2 = (None, afs2\<lparr>assets := Some (fill_dirs ks2 m2)\<rparr>)"
    using c2 ne by (simp add: reload_def)
  from dec [OF c2 p2] d have m2: "m2 ?n = Some (newFile ?n c)" by auto
  have wf2: "wf_map m2" using c2 by (rule collect_wf)
  have l3: "lookup (afs2\<lparr>assets := Some (fill_dirs ks2 m2)\<rparr>) ?n = Some (newFile ?n c)"
    using fill_dirs_keeps [OF wf2 m2, of ks2] by simp
  show ?thesis using d l1 pe l2 other r2 l3 by blast
qed

section \<open>Runs on concrete registries\<close>

text \<open>
  The descriptors of these runs are not compressed; \<open>aGk=\<close> and \<open>eW8=\<close> are
  the base64 forms of \<open>hi\<close> and \<open>yo\<close>, and \<open>!!!\<close> is not base64.
\<close>

lemmas path_eval = fileNameClean_def Join_def Clean_def Dir_def Split_dir_def clean_loop.simps
  notSlash_def

lemma assets_onceAFS: "assets onceAFS = None"
  by (simp add: onceAFS_def)

lemma DecodeString_hi: "DecodeString ''aGk='' = Some ''hi''"
proof -
  have "EncodeToString ''hi'' = ''aGk=''" by (simp add: enc6_def encodeStd_def)
  then show ?thesis using DecodeString_EncodeToString [of "''hi''"] by simp
qed

lemma DecodeString_yo: "DecodeString ''eW8='' = Some ''yo''"
proof -
  have "EncodeToString ''yo'' = ''eW8=''" by (simp add: enc6_def encodeStd_def)
  then show ?thesis using DecodeString_EncodeToString [of "''yo''"] by simp
qed

lemma DecodeString_corrupt: "DecodeString ''!!!'' = None"
  by (simp add: DecodeString_def decodeMap_def encodeStd_def isNL_def)

lemma decode_a_txt:
  "decodeAsset zread (descriptor ''/a.txt'' ''aGk='' True) = Inr (newFile ''/a.txt'' ''hi'')"
  by (simp add: decodeAsset_def descriptor_def DecodeString_hi path_eval)

lemma decode_a_txt_yo:
  "decodeAsset zread (descriptor ''/a.txt'' ''eW8='' True) = Inr (newFile ''/a.txt'' ''yo'')"
  by (simp add: decodeAsset_def descriptor_def DecodeString_yo path_eval)

lemma decode_b_txt:
  "decodeAsset zread (descriptor ''/b.txt'' ''!!!'' True) = Inl (DecodeAsset ''/b.txt'')"
  by (simp add: decodeAsset_def descriptor_def DecodeString_corrupt path_eval)

lemma reload_a_txt:
  "reload zread [descriptor ''/a.txt'' ''aGk='' True] [descriptor ''/a.txt'' ''aGk='' True]
     [''/a.txt''] onceAFS
   = (None, \<lparr>assets = Some [''/a.txt'' \<mapsto> newFile ''/a.txt'' ''hi'', ''/'' \<mapsto> newDir ''/'']\<rparr>)"
  by (simp add: reload_def decode_a_txt fill_dir_def Belong_map_def onceAFS_def Let_def path_eval)

lemma reload_valid_then_corrupt:
  "reload zread [descriptor ''/a.txt'' ''aGk='' True, descriptor ''/b.txt'' ''!!!'' True]
     [descriptor ''/a.txt'' ''aGk='' True, descriptor ''/b.txt'' ''!!!'' True] [] onceAFS
   = (Some (DecodeAsset ''/b.txt''), \<lparr>assets = Some [''/a.txt'' \<mapsto> newFile ''/a.txt'' ''hi'']\<rparr>)"
  by (simp add: reload_def decode_a_txt decode_b_txt onceAFS_def)

text \<open>
  Against C1 as stated.  On a file system without a snapshot, with a valid and a
  corrupt descriptor registered and the valid result arriving first, reload fails,
  the map is no longer the one before the reload, and opening the valid name
  succeeds.
\<close>

theorem reload_failure_replaces_snapshot:
  "fst (reload Inr [descriptor ''/a.txt'' ''aGk='' True, descriptor ''/b.txt'' ''!!!'' True]
          [descriptor ''/a.txt'' ''aGk='' True, descriptor ''/b.txt'' ''!!!'' True] [] onceAFS)
     = Some (DecodeAsset ''/b.txt'') \<and>
   assets (snd (reload Inr [descriptor ''/a.txt'' ''aGk='' True, descriptor ''/b.txt'' ''!!!'' True]
          [descriptor ''/a.txt'' ''aGk='' True, descriptor ''/b.txt'' ''!!!'' True] [] onceAFS))
     \<noteq> assets onceAFS \<and>
   fst (Open (snd (reload Inr [descriptor ''/a.txt'' ''aGk='' True, descriptor ''/b.txt'' ''!!!'' True]
          [descriptor ''/a.txt'' ''aGk='' True, descriptor ''/b.txt'' ''!!!'' True] [] onceAFS))
        ''/a.txt'') = Inr ''/a.txt''"
  by (simp add: reload_valid_then_corrupt assets_onceAFS Open_def asset_def lookup_def path_eval)

text \<open>
  Two runs with a failure.  With \<open>/a.txt\<close> registered twice, as \<open>hi\<close> and as
  \<open>yo\<close>, and the results arriving as \<open>hi\<close>, the corrupt one, \<open>yo\<close>: reload
  fails and the new map holds \<open>/a.txt\<close> with the content \<open>hi\<close> that arrived
  before the failure.  With a valid and a corrupt descriptor and the corrupt result
  arriving first: reload fails and opening the valid name fails with the not-found
  error.
\<close>

theorem reload_decode_failure_witness:
  "mset [descriptor ''/a.txt'' ''aGk='' True, descriptor ''/b.txt'' ''!!!'' True,
         descriptor ''/a.txt'' ''eW8='' True]
     = mset [descriptor ''/a.txt'' ''aGk='' True, descriptor ''/b.txt'' ''!!!'' True,
             descriptor ''/a.txt'' ''eW8='' True] \<and>
   descriptor ''/b.txt'' ''!!!'' True
     \<in> set [descriptor ''/a.txt'' ''aGk='' True, descriptor ''/b.txt'' ''!!!'' True,
            descriptor ''/a.txt'' ''eW8='' True] \<and>
   isl (decodeAsset Inr (descriptor ''/b.txt'' ''!!!'' True)) \<and>
   fst (reload Inr [descriptor ''/a.txt'' ''aGk='' True, descriptor ''/b.txt'' ''!!!'' True,
                    descriptor ''/a.txt'' ''eW8='' True]
          [descriptor ''/a.txt'' ''aGk='' True, descriptor ''/b.txt'' ''!!!'' True,
           descriptor ''/a.txt'' ''eW8='' True] [] onceAFS)
     \<noteq> None \<and>
   lookup (snd (reload Inr [descriptor ''/a.txt'' ''aGk='' True, descriptor ''/b.txt'' ''!!!'' True,
                    descriptor ''/a.txt'' ''eW8='' True]
          [descriptor ''/a.txt'' ''aGk='' True, descriptor ''/b.txt'' ''!!!'' True,
           descriptor ''/a.txt'' ''eW8='' True] [] onceAFS)) ''/a.txt''
     = Some (newFile ''/a.txt'' ''hi'') \<and>
   lookup (snd (reload Inr [descriptor ''/a.txt'' ''aGk='' True, descriptor ''/b.txt'' ''!!!'' True,
                    descriptor ''/a.txt'' ''eW8='' True]
          [descriptor ''/a.txt'' ''aGk='' True, descriptor ''/b.txt'' ''!!!'' True,
           descriptor ''/a.txt'' ''eW8='' True] [] onceAFS)) ''/b.txt''
     = None \<and>
   mset [descriptor ''/b.txt'' ''!!!'' True, descriptor ''/a.txt'' ''aGk='' True]
     = mset [descriptor ''/a.txt'' ''aGk='' True, descriptor ''/b.txt'' ''!!!'' True] \<and>
   descriptor ''/b.txt'' ''!!!'' True
     \<in> set [descriptor ''/a.txt'' ''aGk='' True, descriptor ''/b.txt'' ''!!!'' True] \<and>
   fst (reload Inr [descriptor ''/a.txt'' ''aGk='' True, descriptor ''/b.txt'' ''!!!'' True]
          [descriptor ''/b.txt'' ''!!!'' True, descriptor ''/a.txt'' ''aGk='' True] [] onceAFS)
     \<noteq> None \<and>
   fst (Open (snd (reload Inr [descriptor ''/a.txt'' ''aGk='' True, descriptor ''/b.txt'' ''!!!'' True]
          [descriptor ''/b.txt'' ''!!!'' True, descriptor ''/a.txt'' ''aGk='' True] [] onceAFS))
        ''/a.txt'') = Inl (OpenFile ErrNotExist)"
proof -
  let ?a = "descriptor ''/a.txt'' ''aGk='' True" and ?b = "descriptor ''/b.txt'' ''!!!'' True"
    and ?y = "descriptor ''/a.txt'' ''eW8='' True"
  have g1: "mset [?a, ?b, ?y] = mset [?a, ?b, ?y]" by simp
  have g2: "?b \<in> set [?a, ?b, ?y]" by simp
  have h3: "isl (decodeAsset Inr ?b)" by (simp add: decode_b_txt)
  have pre: "takeWhile (\<lambda>x. \<not> isl (decodeAsset Inr x)) [?a, ?b, ?y] = [?a]"
    by (simp add: decode_a_txt decode_b_txt)
  from reload_decode_failure [OF g1 g2 h3, of "[]" onceAFS] obtain e m where
    r: "reload Inr [?a, ?b, ?y] [?a, ?b, ?y] [] onceAFS = (Some e, onceAFS\<lparr>assets := Some m\<rparr>)"
    and dm: "dom m = (\<lambda>x. fileNameClean (AName x)) `
               set (takeWhile (\<lambda>x. \<not> isl (decodeAsset Inr x)) [?a, ?b, ?y])"
    and ch: "\<forall>k a. m k = Some a \<longleftrightarrow>
      (\<exists>ys x zs. takeWhile (\<lambda>x. \<not> isl (decodeAsset Inr x)) [?a, ?b, ?y] = ys @ x # zs \<and>
         decodeAsset Inr x = Inr a \<and> fileNameClean (AName x) = k \<and>
         (\<forall>z \<in> set zs. fileNameClean (AName z) \<noteq> k))"
    by blast
  have "\<exists>ys x zs. [?a] = ys @ x # zs \<and> decodeAsset Inr x = Inr (newFile ''/a.txt'' ''hi'') \<and>
         fileNameClean (AName x) = ''/a.txt'' \<and> (\<forall>z \<in> set zs. fileNameClean (AName z) \<noteq> ''/a.txt'')"
    by (rule exI [of _ "[]"], rule exI [of _ ?a], rule exI [of _ "[]"])
       (simp add: decode_a_txt, simp add: descriptor_def path_eval)
  then have "m ''/a.txt'' = Some (newFile ''/a.txt'' ''hi'')" using ch unfolding pre by blast
  moreover have "''/b.txt'' \<notin> dom m"
    unfolding dm pre by (simp add: descriptor_def path_eval)
  ultimately have c1: "fst (reload Inr [?a, ?b, ?y] [?a, ?b, ?y] [] onceAFS) \<noteq> None"
    "lookup (snd (reload Inr [?a, ?b, ?y] [?a, ?b, ?y] [] onceAFS)) ''/a.txt''
       = Some (newFile ''/a.txt'' ''hi'')"
    "lookup (snd (reload Inr [?a, ?b, ?y] [?a, ?b, ?y] [] onceAFS)) ''/b.txt'' = None"
    using r by (auto simp: domIff)
  have h1: "mset [?b, ?a] = mset [?a, ?b]" by (simp add: add_mset_commute)
  have h2: "?b \<in> set [?a, ?b]" by simp
  have h4: "isl (decodeAsset Inr (hd [?b, ?a]))" by (simp add: decode_b_txt)
  from reload_decode_failure [OF h1 h2 h3, of "[]" onceAFS] h4 obtain e' m' where
    "reload Inr [?a, ?b] [?b, ?a] [] onceAFS = (Some e', onceAFS\<lparr>assets := Some m'\<rparr>)"
    "fst (Open (onceAFS\<lparr>assets := Some m'\<rparr>) ''/a.txt'') = Inl (OpenFile ErrNotExist)"
    by blast
  then have c2: "fst (reload Inr [?a, ?b] [?b, ?a] [] onceAFS) \<noteq> None"
    "fst (Open (snd (reload Inr [?a, ?b] [?b, ?a] [] onceAFS)) ''/a.txt'')
       = Inl (OpenFile ErrNotExist)"
    by simp_all
  show ?thesis using g1 g2 h3 c1 h1 h2 c2 by blast
qed

lemma decode_deep:
  "decodeAsset zread (descriptor ''/a/b/c.txt'' ''eW8='' True) = Inr (newFile ''/a/b/c.txt'' ''yo'')"
  by (simp add: decodeAsset_def descriptor_def DecodeString_yo path_eval)

lemma decode_a:
  "decodeAsset zread (descriptor ''/a'' ''aGk='' True) = Inr (newFile ''/a'' ''hi'')"
  by (simp add: decodeAsset_def descriptor_def DecodeString_hi path_eval)

lemma decode_a_b:
  "decodeAsset zread (descriptor ''/a/b'' ''eW8='' True) = Inr (newFile ''/a/b'' ''yo'')"
  by (simp add: decodeAsset_def descriptor_def DecodeString_yo path_eval)

lemma reload_deep_skipping:
  "reload zread [descriptor ''/a/b/c.txt'' ''eW8='' True] [descriptor ''/a/b/c.txt'' ''eW8='' True]
     [''/a/b/c.txt''] onceAFS
   = (None, \<lparr>assets = Some [''/a/b/c.txt'' \<mapsto> newFile ''/a/b/c.txt'' ''yo'',
                              ''/a/b'' \<mapsto> newDir ''/a/b'']\<rparr>)"
  by (simp add: reload_def decode_deep fill_dir_def Belong_map_def onceAFS_def Let_def path_eval)

lemma schedule_deep_skipping:
  "schedule zread [descriptor ''/a/b/c.txt'' ''eW8='' True] [descriptor ''/a/b/c.txt'' ''eW8='' True]
     [''/a/b/c.txt'']"
  by (simp add: schedule_def range_order_def decode_deep)

lemma reload_deep_visiting:
  "reload zread [descriptor ''/a/b/c.txt'' ''eW8='' True] [descriptor ''/a/b/c.txt'' ''eW8='' True]
     [''/a/b/c.txt'', ''/a/b'', ''/a''] onceAFS
   = (None, \<lparr>assets = Some [''/a/b/c.txt'' \<mapsto> newFile ''/a/b/c.txt'' ''yo'',
                              ''/a/b'' \<mapsto> newDir ''/a/b'', ''/a'' \<mapsto> newDir ''/a'',
                              ''/'' \<mapsto> newDir ''/'']\<rparr>)"
  by (simp add: reload_def decode_deep fill_dir_def Belong_map_def onceAFS_def Let_def path_eval)

lemma schedule_deep_visiting:
  "schedule zread [descriptor ''/a/b/c.txt'' ''eW8='' True] [descriptor ''/a/b/c.txt'' ''eW8='' True]
     [''/a/b/c.txt'', ''/a/b'', ''/a'']"
  by (simp add: schedule_def range_order_def decode_deep fill_dir_def Belong_map_def Let_def path_eval)

lemma reload_file_parent:
  "reload zread [descriptor ''/a'' ''aGk='' True, descriptor ''/a/b'' ''eW8='' True]
     [descriptor ''/a'' ''aGk='' True, descriptor ''/a/b'' ''eW8='' True]
     [''/a'', ''/a/b'', ''/''] onceAFS
   = (None, \<lparr>assets = Some [''/a'' \<mapsto> newFile ''/a'' ''hi'', ''/a/b'' \<mapsto> newFile ''/a/b'' ''yo'',
                              ''/'' \<mapsto> newDir ''/'']\<rparr>)"
  by (simp add: reload_def decode_a decode_a_b fill_dir_def Belong_map_def onceAFS_def Let_def path_eval)

lemma schedule_file_parent:
  "schedule zread [descriptor ''/a'' ''aGk='' True, descriptor ''/a/b'' ''eW8='' True]
     [descriptor ''/a'' ''aGk='' True, descriptor ''/a/b'' ''eW8='' True]
     [''/a'', ''/a/b'', ''/'']"
  by (simp add: schedule_def range_order_def decode_a decode_a_b fill_dir_def Belong_map_def Let_def path_eval)

lemma ancestors_deep: "ancestors ''/a/b/c.txt'' = [''/a/b'', ''/a'', ''/'']"
  by (simp add: ancestors_def path_eval)

lemma ancestors_a_b: "ancestors ''/a/b'' = [''/a'', ''/'']"
  by (simp add: ancestors_def path_eval)

text \<open>
  Against C2 as stated.  With \<open>/a/b/c.txt\<close> registered and a range that does
  not produce the entry \<open>/a/b\<close> inserted by its own body, reload succeeds and
  the ancestors \<open>/a\<close> and \<open>/\<close> have no entry.  With \<open>/a\<close> and
  \<open>/a/b\<close> both registered as files, reload succeeds and the ancestor
  \<open>/a\<close> of \<open>/a/b\<close> is not a directory.
\<close>

theorem reload_misses_ancestors:
  "schedule Inr [descriptor ''/a/b/c.txt'' ''eW8='' True] [descriptor ''/a/b/c.txt'' ''eW8='' True]
     [''/a/b/c.txt''] \<and>
   fst (reload Inr [descriptor ''/a/b/c.txt'' ''eW8='' True] [descriptor ''/a/b/c.txt'' ''eW8='' True]
     [''/a/b/c.txt''] onceAFS) = None \<and>
   \<not> dir_inference_total
       (snd (reload Inr [descriptor ''/a/b/c.txt'' ''eW8='' True]
          [descriptor ''/a/b/c.txt'' ''eW8='' True] [''/a/b/c.txt''] onceAFS)) \<and>
   schedule Inr [descriptor ''/a'' ''aGk='' True, descriptor ''/a/b'' ''eW8='' True]
     [descriptor ''/a'' ''aGk='' True, descriptor ''/a/b'' ''eW8='' True] [''/a'', ''/a/b'', ''/''] \<and>
   fst (reload Inr [descriptor ''/a'' ''aGk='' True, descriptor ''/a/b'' ''eW8='' True]
     [descriptor ''/a'' ''aGk='' True, descriptor ''/a/b'' ''eW8='' True] [''/a'', ''/a/b'', ''/'']
     onceAFS) = None \<and>
   \<not> dir_inference_total
       (snd (reload Inr [descriptor ''/a'' ''aGk='' True, descriptor ''/a/b'' ''eW8='' True]
          [descriptor ''/a'' ''aGk='' True, descriptor ''/a/b'' ''eW8='' True]
          [''/a'', ''/a/b'', ''/''] onceAFS))"
proof -
  let ?m1 = "\<lparr>assets = Some [''/a/b/c.txt'' \<mapsto> newFile ''/a/b/c.txt'' ''yo'',
                              ''/a/b'' \<mapsto> newDir ''/a/b'']\<rparr>"
  let ?m2 = "\<lparr>assets = Some [''/a'' \<mapsto> newFile ''/a'' ''hi'', ''/a/b'' \<mapsto> newFile ''/a/b'' ''yo'',
                              ''/'' \<mapsto> newDir ''/'']\<rparr>"
  have "\<not> dir_inference_total ?m1"
  proof
    assume "dir_inference_total ?m1"
    moreover have "lookup ?m1 ''/a/b/c.txt'' \<noteq> None" by (simp add: lookup_def)
    ultimately have "\<forall>d \<in> set (ancestors ''/a/b/c.txt''). \<exists>a. lookup ?m1 d = Some a \<and> isDir a"
      unfolding dir_inference_total_def by blast
    then have "\<exists>a. lookup ?m1 ''/a'' = Some a \<and> isDir a" by (simp add: ancestors_deep)
    then show False by (simp add: lookup_def)
  qed
  moreover have "\<not> dir_inference_total ?m2"
  proof
    assume "dir_inference_total ?m2"
    moreover have "lookup ?m2 ''/a/b'' \<noteq> None" by (simp add: lookup_def)
    ultimately have "\<forall>d \<in> set (ancestors ''/a/b''). \<exists>a. lookup ?m2 d = Some a \<and> isDir a"
      unfolding dir_inference_total_def by blast
    then have "\<exists>a. lookup ?m2 ''/a'' = Some a \<and> isDir a" by (simp add: ancestors_a_b)
    then show False by (simp add: lookup_def)
  qed
  ultimately show ?thesis
    by (simp add: reload_deep_skipping schedule_deep_skipping reload_file_parent schedule_file_parent)
qed

text \<open>
  A successful run with \<open>/a/b/c.txt\<close> registered, the range producing the
  inserted directories too: the file has its entry and its parent \<open>/a/b\<close> is
  a directory.
\<close>

theorem reload_parent_directory_witness:
  "reload Inr [descriptor ''/a/b/c.txt'' ''eW8='' True] [descriptor ''/a/b/c.txt'' ''eW8='' True]
     [''/a/b/c.txt'', ''/a/b'', ''/a''] onceAFS
   = (None, \<lparr>assets = Some [''/a/b/c.txt'' \<mapsto> newFile ''/a/b/c.txt'' ''yo'',
                              ''/a/b'' \<mapsto> newDir ''/a/b'', ''/a'' \<mapsto> newDir ''/a'',
                              ''/'' \<mapsto> newDir ''/'']\<rparr>) \<and>
   schedule Inr [descriptor ''/a/b/c.txt'' ''eW8='' True] [descriptor ''/a/b/c.txt'' ''eW8='' True]
     [''/a/b/c.txt'', ''/a/b'', ''/a''] \<and>
   descriptor ''/a/b/c.txt'' ''eW8='' True \<in> set [descriptor ''/a/b/c.txt'' ''eW8='' True] \<and>
   (\<exists>a p. lookup \<lparr>assets = Some [''/a/b/c.txt'' \<mapsto> newFile ''/a/b/c.txt'' ''yo'',
                              ''/a/b'' \<mapsto> newDir ''/a/b'', ''/a'' \<mapsto> newDir ''/a'',
                              ''/'' \<mapsto> newDir ''/'']\<rparr>
                (fileNameClean (AName (descriptor ''/a/b/c.txt'' ''eW8='' True))) = Some a \<and>
          \<not> isDir a \<and>
          lookup \<lparr>assets = Some [''/a/b/c.txt'' \<mapsto> newFile ''/a/b/c.txt'' ''yo'',
                              ''/a/b'' \<mapsto> newDir ''/a/b'', ''/a'' \<mapsto> newDir ''/a'',
                              ''/'' \<mapsto> newDir ''/'']\<rparr>
                (Dir (fileNameClean (AName (descriptor ''/a/b/c.txt'' ''eW8='' True)))) = Some p \<and>
          (isDir p \<longleftrightarrow>
             (\<forall>x \<in> set [descriptor ''/a/b/c.txt'' ''eW8='' True].
                fileNameClean (AName x)
                \<noteq> Dir (fileNameClean (AName (descriptor ''/a/b/c.txt'' ''eW8='' True))))))"
proof -
  let ?d = "descriptor ''/a/b/c.txt'' ''eW8='' True"
  have h1: "reload Inr [?d] [?d] [''/a/b/c.txt'', ''/a/b'', ''/a''] onceAFS
      = (None, \<lparr>assets = Some [''/a/b/c.txt'' \<mapsto> newFile ''/a/b/c.txt'' ''yo'',
                              ''/a/b'' \<mapsto> newDir ''/a/b'', ''/a'' \<mapsto> newDir ''/a'',
                              ''/'' \<mapsto> newDir ''/'']\<rparr>)"
    by (rule reload_deep_visiting)
  have h2: "schedule Inr [?d] [?d] [''/a/b/c.txt'', ''/a/b'', ''/a'']"
    by (rule schedule_deep_visiting)
  have h3: "?d \<in> set [?d]" by simp
  show ?thesis using reload_parent_directory [OF h1 h2 h3] h1 h2 h3 by blast
qed

lemma decode_a_x:
  "decodeAsset zread (descriptor ''/a/x'' ''aGk='' True) = Inr (newFile ''/a/x'' ''hi'')"
  by (simp add: decodeAsset_def descriptor_def DecodeString_hi path_eval)

lemma decode_ab:
  "decodeAsset zread (descriptor ''/ab'' ''eW8='' True) = Inr (newFile ''/ab'' ''yo'')"
  by (simp add: decodeAsset_def descriptor_def DecodeString_yo path_eval)

lemma reload_a_x_ab:
  "reload zread [descriptor ''/a/x'' ''aGk='' True, descriptor ''/ab'' ''eW8='' True]
     [descriptor ''/a/x'' ''aGk='' True, descriptor ''/ab'' ''eW8='' True]
     [''/a/x'', ''/ab'', ''/a''] onceAFS
   = (None, \<lparr>assets = Some [''/a/x'' \<mapsto> newFile ''/a/x'' ''hi'', ''/ab'' \<mapsto> newFile ''/ab'' ''yo'',
                              ''/a'' \<mapsto> newDir ''/a'', ''/'' \<mapsto> newDir ''/'']\<rparr>)"
  by (simp add: reload_def decode_a_x decode_ab fill_dir_def Belong_map_def onceAFS_def Let_def path_eval)

lemma range_keys_a_x_ab:
  "range_keys \<lparr>assets = Some [''/a/x'' \<mapsto> newFile ''/a/x'' ''hi'', ''/ab'' \<mapsto> newFile ''/ab'' ''yo'',
                              ''/a'' \<mapsto> newDir ''/a'', ''/'' \<mapsto> newDir ''/'']\<rparr>
     [''/a/x'', ''/ab'', ''/a'', ''/'']"
  by (auto simp: range_keys_def lookup_def)

lemma Readdir_a:
  "Readdir \<lparr>assets = Some [''/a/x'' \<mapsto> newFile ''/a/x'' ''hi'', ''/ab'' \<mapsto> newFile ''/ab'' ''yo'',
                              ''/a'' \<mapsto> newDir ''/a'', ''/'' \<mapsto> newDir ''/'']\<rparr>
     [''/a/x'', ''/ab'', ''/a'', ''/''] (newDir ''/a'')
   = [newFile ''/a/x'' ''hi'', newFile ''/ab'' ''yo'']"
  by (simp add: Readdir_def List.map_filter_simps HasPrefix_def lookup_def)

text \<open>
  Against C5 as stated.  With \<open>/a/x\<close> and \<open>/ab\<close> registered, listing the
  directory \<open>/a\<close> returns the entry \<open>/ab\<close>, which is not in the subtree of
  \<open>/a\<close>.
\<close>

theorem Readdir_not_segment_aware:
  "fst (reload Inr [descriptor ''/a/x'' ''aGk='' True, descriptor ''/ab'' ''eW8='' True]
     [descriptor ''/a/x'' ''aGk='' True, descriptor ''/ab'' ''eW8='' True]
     [''/a/x'', ''/ab'', ''/a''] onceAFS) = None \<and>
   lookup (snd (reload Inr [descriptor ''/a/x'' ''aGk='' True, descriptor ''/ab'' ''eW8='' True]
     [descriptor ''/a/x'' ''aGk='' True, descriptor ''/ab'' ''eW8='' True]
     [''/a/x'', ''/ab'', ''/a''] onceAFS)) ''/a'' = Some (newDir ''/a'') \<and>
   lookup (snd (reload Inr [descriptor ''/a/x'' ''aGk='' True, descriptor ''/ab'' ''eW8='' True]
     [descriptor ''/a/x'' ''aGk='' True, descriptor ''/ab'' ''eW8='' True]
     [''/a/x'', ''/ab'', ''/a''] onceAFS)) ''/ab'' = Some (newFile ''/ab'' ''yo'') \<and>
   range_keys (snd (reload Inr [descriptor ''/a/x'' ''aGk='' True, descriptor ''/ab'' ''eW8='' True]
     [descriptor ''/a/x'' ''aGk='' True, descriptor ''/ab'' ''eW8='' True]
     [''/a/x'', ''/ab'', ''/a''] onceAFS)) [''/a/x'', ''/ab'', ''/a'', ''/''] \<and>
   newFile ''/ab'' ''yo''
     \<in> set (Readdir (snd (reload Inr [descriptor ''/a/x'' ''aGk='' True, descriptor ''/ab'' ''eW8='' True]
         [descriptor ''/a/x'' ''aGk='' True, descriptor ''/ab'' ''eW8='' True]
         [''/a/x'', ''/ab'', ''/a''] onceAFS)) [''/a/x'', ''/ab'', ''/a'', ''/''] (newDir ''/a'')) \<and>
   \<not> in_subtree ''/a'' ''/ab''"
proof -
  have "\<not> in_subtree ''/a'' ''/ab''"
    by (simp add: in_subtree_def ancestors_def path_eval)
  then show ?thesis
    by (simp add: reload_a_x_ab range_keys_a_x_ab Readdir_a) (simp add: lookup_def)
qed

text \<open>
  Listing on the same file system, for the directory \<open>/a\<close> and for the
  file \<open>/ab\<close>.
\<close>

theorem Readdir_string_prefix_witness:
  "range_keys \<lparr>assets = Some [''/a/x'' \<mapsto> newFile ''/a/x'' ''hi'', ''/ab'' \<mapsto> newFile ''/ab'' ''yo'',
                              ''/a'' \<mapsto> newDir ''/a'', ''/'' \<mapsto> newDir ''/'']\<rparr>
     [''/a/x'', ''/ab'', ''/a'', ''/''] \<and>
   set (Readdir \<lparr>assets = Some [''/a/x'' \<mapsto> newFile ''/a/x'' ''hi'', ''/ab'' \<mapsto> newFile ''/ab'' ''yo'',
                              ''/a'' \<mapsto> newDir ''/a'', ''/'' \<mapsto> newDir ''/'']\<rparr>
     [''/a/x'', ''/ab'', ''/a'', ''/''] (newDir ''/a''))
   = {e. \<exists>n. lookup \<lparr>assets = Some [''/a/x'' \<mapsto> newFile ''/a/x'' ''hi'', ''/ab'' \<mapsto> newFile ''/ab'' ''yo'',
                              ''/a'' \<mapsto> newDir ''/a'', ''/'' \<mapsto> newDir ''/'']\<rparr> n = Some e \<and>
              HasPrefix n (AName (newDir ''/a'')) \<and> length (AName (newDir ''/a'')) < length n} \<and>
   Readdir \<lparr>assets = Some [''/a/x'' \<mapsto> newFile ''/a/x'' ''hi'', ''/ab'' \<mapsto> newFile ''/ab'' ''yo'',
                              ''/a'' \<mapsto> newDir ''/a'', ''/'' \<mapsto> newDir ''/'']\<rparr>
     [''/a/x'', ''/ab'', ''/a'', ''/''] (newFile ''/ab'' ''yo'') = []"
proof -
  have d: "isDir (newDir ''/a'')" and f: "\<not> isDir (newFile ''/ab'' ''yo'')" by simp_all
  show ?thesis
    using Readdir_string_prefix [OF range_keys_a_x_ab, of "newDir ''/a''"]
      Readdir_string_prefix [OF range_keys_a_x_ab, of "newFile ''/ab'' ''yo''"]
      range_keys_a_x_ab d f
    by blast
qed

text \<open>
  Opening the root directory that reload filled in for \<open>/a.txt\<close>.
\<close>

theorem open_directory_witness:
  "reload Inr [descriptor ''/a.txt'' ''aGk='' True] [descriptor ''/a.txt'' ''aGk='' True]
     [''/a.txt''] onceAFS
   = (None, \<lparr>assets = Some [''/a.txt'' \<mapsto> newFile ''/a.txt'' ''hi'', ''/'' \<mapsto> newDir ''/'']\<rparr>) \<and>
   lookup \<lparr>assets = Some [''/a.txt'' \<mapsto> newFile ''/a.txt'' ''hi'', ''/'' \<mapsto> newDir ''/'']\<rparr> ''/''
     = Some (newDir ''/'') \<and>
   isDir (newDir ''/'') \<and>
   content (newDir ''/'') = ''/'' \<and> size (newDir ''/'') = int (length ''/'') \<and>
   Open \<lparr>assets = Some [''/a.txt'' \<mapsto> newFile ''/a.txt'' ''hi'', ''/'' \<mapsto> newDir ''/'']\<rparr> ''/''
     = (Inr ''/'',
        store \<lparr>assets = Some [''/a.txt'' \<mapsto> newFile ''/a.txt'' ''hi'', ''/'' \<mapsto> newDir ''/'']\<rparr>
          ''/'' ((newDir ''/'')\<lparr>ReadSeeker := Some \<lparr>s = ''/'', i = 0\<rparr>\<rparr>)) \<and>
   fst (Read (snd (Open \<lparr>assets = Some [''/a.txt'' \<mapsto> newFile ''/a.txt'' ''hi'',
                                        ''/'' \<mapsto> newDir ''/'']\<rparr> ''/'')) ''/'' (length ''/''))
     = Inr ''/''"
proof -
  let ?fs = "\<lparr>assets = Some [''/a.txt'' \<mapsto> newFile ''/a.txt'' ''hi'', ''/'' \<mapsto> newDir ''/'']\<rparr>"
  have h1: "reload Inr [descriptor ''/a.txt'' ''aGk='' True] [descriptor ''/a.txt'' ''aGk='' True]
     [''/a.txt''] onceAFS = (None, ?fs)"
    by (rule reload_a_txt)
  have h2: "lookup ?fs ''/'' = Some (newDir ''/'')" by (simp add: lookup_def)
  have h3: "isDir (newDir ''/'')" by simp
  show ?thesis using open_directory [OF h1 h2 h3] h1 h2 h3 by blast
qed

text \<open>
  Templating with an engine that appends the data to the text: the names are
  \<open>a.txt\<close>, \<open>/\<close>, \<open>a.txt\<close>; the second is a directory, the call fails,
  and \<open>/a.txt\<close> keeps the content rendered for the first.
\<close>

theorem ExecTemplate_not_atomic_witness:
  "ExecTemplate (\<lambda>name text. if text = ''{{'' then None else Some text) (\<lambda>tpl data. Some (tpl @ data))
     [''a.txt''] ''!'' \<lparr>assets = Some [''/a.txt'' \<mapsto> newFile ''/a.txt'' ''hi'', ''/'' \<mapsto> newDir ''/'']\<rparr>
   = (None, \<lparr>assets = Some [''/a.txt'' \<mapsto> newFile ''/a.txt'' ''hi!'', ''/'' \<mapsto> newDir ''/'']\<rparr>) \<and>
   fst (ExecTemplate (\<lambda>name text. if text = ''{{'' then None else Some text)
          (\<lambda>tpl data. Some (tpl @ data)) [''/''] ''!''
          \<lparr>assets = Some [''/a.txt'' \<mapsto> newFile ''/a.txt'' ''hi!'', ''/'' \<mapsto> newDir ''/'']\<rparr>)
     = Some TplAssetIsDir \<and>
   ExecTemplate (\<lambda>name text. if text = ''{{'' then None else Some text) (\<lambda>tpl data. Some (tpl @ data))
     ([''a.txt''] @ ''/'' # [''a.txt'']) ''!''
     \<lparr>assets = Some [''/a.txt'' \<mapsto> newFile ''/a.txt'' ''hi'', ''/'' \<mapsto> newDir ''/'']\<rparr>
   = (Some TplAssetIsDir,
      \<lparr>assets = Some [''/a.txt'' \<mapsto> newFile ''/a.txt'' ''hi!'', ''/'' \<mapsto> newDir ''/'']\<rparr>)"
proof -
  let ?P = "\<lambda>(name::string) text. if text = ''{{'' then None else Some text"
  let ?E = "\<lambda>(tpl::string) (data::string). Some (tpl @ data)"
  let ?fs = "\<lparr>assets = Some [''/a.txt'' \<mapsto> newFile ''/a.txt'' ''hi'', ''/'' \<mapsto> newDir ''/'']\<rparr>"
  let ?fs1 = "\<lparr>assets = Some [''/a.txt'' \<mapsto> newFile ''/a.txt'' ''hi!'', ''/'' \<mapsto> newDir ''/'']\<rparr>"
  have h1: "ExecTemplate ?P ?E [''a.txt''] ''!'' ?fs = (None, ?fs1)"
    by (simp add: asset_def lookup_def store_def newFile_def path_eval fun_upd_twist)
  have h2: "fst (ExecTemplate ?P ?E [''/''] ''!'' ?fs1) = Some TplAssetIsDir"
    by (simp add: asset_def lookup_def path_eval)
  show ?thesis using ExecTemplate_not_atomic [OF h1 h2, of "[''a.txt'']"] h1 h2 by simp
qed

text \<open>
  With one descriptor for \<open>/a.txt\<close>: its content \<open>hi\<close> is templated to
  \<open>hi!\<close>, and the next reload gives \<open>hi\<close> again.
\<close>

theorem template_not_rederived_witness:
  "reload Inr [descriptor ''/a.txt'' ''aGk='' True] [descriptor ''/a.txt'' ''aGk='' True]
     [''/a.txt''] onceAFS
   = (None, \<lparr>assets = Some [''/a.txt'' \<mapsto> newFile ''/a.txt'' ''hi'', ''/'' \<mapsto> newDir ''/'']\<rparr>) \<and>
   descriptor ''/a.txt'' ''aGk='' True \<in> set [descriptor ''/a.txt'' ''aGk='' True] \<and>
   fileNameClean ''a.txt'' = fileNameClean (AName (descriptor ''/a.txt'' ''aGk='' True)) \<and>
   ExecTemplate (\<lambda>name text. if text = ''{{'' then None else Some text) (\<lambda>tpl data. Some (tpl @ data))
     [''a.txt''] ''!'' \<lparr>assets = Some [''/a.txt'' \<mapsto> newFile ''/a.txt'' ''hi'', ''/'' \<mapsto> newDir ''/'']\<rparr>
   = (None, \<lparr>assets = Some [''/a.txt'' \<mapsto> newFile ''/a.txt'' ''hi!'', ''/'' \<mapsto> newDir ''/'']\<rparr>) \<and>
   fst (reload Inr [descriptor ''/a.txt'' ''aGk='' True] [descriptor ''/a.txt'' ''aGk='' True]
     [''/a.txt'']
     \<lparr>assets = Some [''/a.txt'' \<mapsto> newFile ''/a.txt'' ''hi!'', ''/'' \<mapsto> newDir ''/'']\<rparr>) = None \<and>
   lookup (snd (reload Inr [descriptor ''/a.txt'' ''aGk='' True] [descriptor ''/a.txt'' ''aGk='' True]
     [''/a.txt'']
     \<lparr>assets = Some [''/a.txt'' \<mapsto> newFile ''/a.txt'' ''hi!'', ''/'' \<mapsto> newDir ''/'']\<rparr>)) ''/a.txt''
   = Some (newFile ''/a.txt'' ''hi'')"
proof -
  let ?d = "descriptor ''/a.txt'' ''aGk='' True"
  let ?P = "\<lambda>(name::string) text. if text = ''{{'' then None else Some text"
  let ?E = "\<lambda>(tpl::string) (data::string). Some (tpl @ data)"
  let ?fs1 = "\<lparr>assets = Some [''/a.txt'' \<mapsto> newFile ''/a.txt'' ''hi'', ''/'' \<mapsto> newDir ''/'']\<rparr>"
  let ?fs2 = "\<lparr>assets = Some [''/a.txt'' \<mapsto> newFile ''/a.txt'' ''hi!'', ''/'' \<mapsto> newDir ''/'']\<rparr>"
  have h1: "reload Inr [?d] [?d] [''/a.txt''] onceAFS = (None, ?fs1)" by (rule reload_a_txt)
  have h2: "mset [?d] = mset [?d]" by simp
  have h4: "?d \<in> set [?d]" by simp
  have h5: "\<forall>x \<in> set [?d]. fileNameClean (AName x) = fileNameClean (AName ?d) \<longrightarrow> x = ?d" by simp
  have n: "fileNameClean ''a.txt'' = ''/a.txt''" by (simp add: path_eval)
  have h6: "fileNameClean ''a.txt'' = fileNameClean (AName ?d)"
    by (simp add: descriptor_def path_eval)
  have h7: "ExecTemplate ?P ?E [''a.txt''] ''!'' ?fs1 = (None, ?fs2)"
    by (simp add: asset_def lookup_def store_def newFile_def path_eval fun_upd_twist)
  from template_not_rederived [OF h1 h2 h2 h4 h5 h6 h7, of "[''/a.txt'']"]
  obtain c afs3 where
    "decodeAsset Inr ?d = Inr (newFile (fileNameClean ''a.txt'') c)"
    "reload Inr [?d] [?d] [''/a.txt''] ?fs2 = (None, afs3)"
    "lookup afs3 (fileNameClean ''a.txt'') = Some (newFile (fileNameClean ''a.txt'') c)"
    by blast
  moreover from this(1) have "c = ''hi''" by (simp add: decode_a_txt n newFile_def)
  ultimately have "fst (reload Inr [?d] [?d] [''/a.txt''] ?fs2) = None"
    "lookup (snd (reload Inr [?d] [?d] [''/a.txt''] ?fs2)) ''/a.txt'' = Some (newFile ''/a.txt'' ''hi'')"
    by (simp_all add: n)
  then show ?thesis using h1 h4 h6 h7 by blast
qed

text \<open>
  C3 fails on the code.  \<open>Open\<close> returns the pointer stored in the map, after
  giving that entry a new reader, so two opens of one name return one and the same
  handle.  On the snapshot of \<open>/a.txt\<close> with content \<open>hi\<close>: the first open
  returns the handle, a read of one byte through it moves its position to 1; the
  second open returns the same handle and the position seen through the first is
  back at 0; a read of two bytes through the second moves the position seen through
  the first to 2.
\<close>

theorem Open_twice_same_cursor:
  "reload Inr [descriptor ''/a.txt'' ''aGk='' True] [descriptor ''/a.txt'' ''aGk='' True]
     [''/a.txt''] onceAFS
   = (None, \<lparr>assets = Some [''/a.txt'' \<mapsto> newFile ''/a.txt'' ''hi'', ''/'' \<mapsto> newDir ''/'']\<rparr>) \<and>
   fst (Open \<lparr>assets = Some [''/a.txt'' \<mapsto> newFile ''/a.txt'' ''hi'', ''/'' \<mapsto> newDir ''/'']\<rparr>
          ''/a.txt'') = Inr ''/a.txt'' \<and>
   fst (Read (snd (Open \<lparr>assets = Some [''/a.txt'' \<mapsto> newFile ''/a.txt'' ''hi'',
                                        ''/'' \<mapsto> newDir ''/'']\<rparr> ''/a.txt'')) ''/a.txt'' 1)
     = Inr ''h'' \<and>
   position (snd (Read (snd (Open \<lparr>assets = Some [''/a.txt'' \<mapsto> newFile ''/a.txt'' ''hi'',
                                        ''/'' \<mapsto> newDir ''/'']\<rparr> ''/a.txt'')) ''/a.txt'' 1))
     ''/a.txt'' = Inr 1 \<and>
   fst (Open (snd (Read (snd (Open \<lparr>assets = Some [''/a.txt'' \<mapsto> newFile ''/a.txt'' ''hi'',
                                        ''/'' \<mapsto> newDir ''/'']\<rparr> ''/a.txt'')) ''/a.txt'' 1))
          ''/a.txt'') = Inr ''/a.txt'' \<and>
   position (snd (Open (snd (Read (snd (Open \<lparr>assets = Some [''/a.txt'' \<mapsto> newFile ''/a.txt'' ''hi'',
                                        ''/'' \<mapsto> newDir ''/'']\<rparr> ''/a.txt'')) ''/a.txt'' 1))
          ''/a.txt'')) ''/a.txt'' = Inr 0 \<and>
   position (snd (Read (snd (Open (snd (Read (snd (Open
       \<lparr>assets = Some [''/a.txt'' \<mapsto> newFile ''/a.txt'' ''hi'', ''/'' \<mapsto> newDir ''/'']\<rparr>
       ''/a.txt'')) ''/a.txt'' 1)) ''/a.txt'')) ''/a.txt'' 2)) ''/a.txt'' = Inr 2"
  by (simp add: reload_a_txt)
     (simp add: Open_def asset_def lookup_def store_def Read_def Reader_Read_def position_def
      Seek_def Reader_Seek_def int64_def Let_def path_eval)

lemma reload_duplicates_first:
  "reload zread [descriptor ''/a.txt'' ''aGk='' True, descriptor ''/a.txt'' ''eW8='' True]
     [descriptor ''/a.txt'' ''aGk='' True, descriptor ''/a.txt'' ''eW8='' True] [''/a.txt''] afs
   = (None, afs\<lparr>assets := Some [''/a.txt'' \<mapsto> newFile ''/a.txt'' ''yo'', ''/'' \<mapsto> newDir ''/'']\<rparr>)"
  by (simp add: reload_def decode_a_txt decode_a_txt_yo fill_dir_def Belong_map_def Let_def path_eval)

lemma reload_duplicates_second:
  "reload zread [descriptor ''/a.txt'' ''aGk='' True, descriptor ''/a.txt'' ''eW8='' True]
     [descriptor ''/a.txt'' ''eW8='' True, descriptor ''/a.txt'' ''aGk='' True] [''/a.txt''] afs
   = (None, afs\<lparr>assets := Some [''/a.txt'' \<mapsto> newFile ''/a.txt'' ''hi'', ''/'' \<mapsto> newDir ''/'']\<rparr>)"
  by (simp add: reload_def decode_a_txt decode_a_txt_yo fill_dir_def Belong_map_def Let_def path_eval)

lemma schedule_duplicates:
  "schedule zread [descriptor ''/a.txt'' ''aGk='' True, descriptor ''/a.txt'' ''eW8='' True]
     [descriptor ''/a.txt'' ''aGk='' True, descriptor ''/a.txt'' ''eW8='' True] [''/a.txt'']"
  "schedule zread [descriptor ''/a.txt'' ''aGk='' True, descriptor ''/a.txt'' ''eW8='' True]
     [descriptor ''/a.txt'' ''eW8='' True, descriptor ''/a.txt'' ''aGk='' True] [''/a.txt'']"
  by (simp_all add: schedule_def range_order_def decode_a_txt decode_a_txt_yo add_mset_commute)

text \<open>
  Against C7 as stated.  Two descriptors are registered under \<open>/a.txt\<close>, with
  contents \<open>hi\<close> and \<open>yo\<close>.  In the first reload \<open>yo\<close> arrives last and
  is the decoded content; the template makes it \<open>yo!\<close>; in the next reload
  \<open>hi\<close> arrives last, and the entry is \<open>hi\<close>, not the content decoded
  before.
\<close>

theorem reload_after_template_duplicate_names:
  "schedule Inr [descriptor ''/a.txt'' ''aGk='' True, descriptor ''/a.txt'' ''eW8='' True]
     [descriptor ''/a.txt'' ''aGk='' True, descriptor ''/a.txt'' ''eW8='' True] [''/a.txt''] \<and>
   fst (reload Inr [descriptor ''/a.txt'' ''aGk='' True, descriptor ''/a.txt'' ''eW8='' True]
     [descriptor ''/a.txt'' ''aGk='' True, descriptor ''/a.txt'' ''eW8='' True] [''/a.txt'']
     onceAFS) = None \<and>
   lookup (snd (reload Inr [descriptor ''/a.txt'' ''aGk='' True, descriptor ''/a.txt'' ''eW8='' True]
     [descriptor ''/a.txt'' ''aGk='' True, descriptor ''/a.txt'' ''eW8='' True] [''/a.txt'']
     onceAFS)) ''/a.txt'' = Some (newFile ''/a.txt'' ''yo'') \<and>
   fst (ExecTemplate (curry (Some \<circ> snd)) (curry (Some \<circ> case_prod append)) [''/a.txt''] ''!''
     (snd (reload Inr [descriptor ''/a.txt'' ''aGk='' True, descriptor ''/a.txt'' ''eW8='' True]
       [descriptor ''/a.txt'' ''aGk='' True, descriptor ''/a.txt'' ''eW8='' True] [''/a.txt'']
       onceAFS))) = None \<and>
   lookup (snd (ExecTemplate (curry (Some \<circ> snd)) (curry (Some \<circ> case_prod append)) [''/a.txt''] ''!''
     (snd (reload Inr [descriptor ''/a.txt'' ''aGk='' True, descriptor ''/a.txt'' ''eW8='' True]
       [descriptor ''/a.txt'' ''aGk='' True, descriptor ''/a.txt'' ''eW8='' True] [''/a.txt'']
       onceAFS)))) ''/a.txt'' = Some (newFile ''/a.txt'' ''yo!'') \<and>
   schedule Inr [descriptor ''/a.txt'' ''aGk='' True, descriptor ''/a.txt'' ''eW8='' True]
     [descriptor ''/a.txt'' ''eW8='' True, descriptor ''/a.txt'' ''aGk='' True] [''/a.txt''] \<and>
   fst (reload Inr [descriptor ''/a.txt'' ''aGk='' True, descriptor ''/a.txt'' ''eW8='' True]
     [descriptor ''/a.txt'' ''eW8='' True, descriptor ''/a.txt'' ''aGk='' True] [''/a.txt'']
     (snd (ExecTemplate (curry (Some \<circ> snd)) (curry (Some \<circ> case_prod append)) [''/a.txt''] ''!''
       (snd (reload Inr [descriptor ''/a.txt'' ''aGk='' True, descriptor ''/a.txt'' ''eW8='' True]
         [descriptor ''/a.txt'' ''aGk='' True, descriptor ''/a.txt'' ''eW8='' True] [''/a.txt'']
         onceAFS))))) = None \<and>
   lookup (snd (reload Inr [descriptor ''/a.txt'' ''aGk='' True, descriptor ''/a.txt'' ''eW8='' True]
     [descriptor ''/a.txt'' ''eW8='' True, descriptor ''/a.txt'' ''aGk='' True] [''/a.txt'']
     (snd (ExecTemplate (curry (Some \<circ> snd)) (curry (Some \<circ> case_prod append)) [''/a.txt''] ''!''
       (snd (reload Inr [descriptor ''/a.txt'' ''aGk='' True, descriptor ''/a.txt'' ''eW8='' True]
         [descriptor ''/a.txt'' ''aGk='' True, descriptor ''/a.txt'' ''eW8='' True] [''/a.txt'']
         onceAFS)))))) ''/a.txt'' = Some (newFile ''/a.txt'' ''hi'') \<and>
   newFile ''/a.txt'' ''hi'' \<noteq> newFile ''/a.txt'' ''yo''"
  by (simp add: reload_duplicates_first reload_duplicates_second schedule_duplicates)
     (simp add: onceAFS_def asset_def lookup_def store_def newFile_def path_eval)

end
